theory Spec2Isabelle
  imports Complex_Main "HOL-Library.AList"
begin

section \<open>Data model of the propagation engine\<close>

text \<open>
  The engine of \<^verbatim>\<open>src/lib/propagation\<close> works on typed nodes. \<^verbatim>\<open>EntityType\<close> and the impact
  type are closed enumerations (the request schemas list their members), a JavaScript
  \<^verbatim>\<open>number\<close> is modelled as a real number, a \<^verbatim>\<open>Map\<close> as an association list in insertion
  order, and a \<^verbatim>\<open>Set\<close> of strings as a set of strings. The depth cap is a natural number:
  the depth counts up from 0 in steps of one, so a cap \<open>m\<close> stops the same calls as the
  least natural number not below \<open>m\<close>.
\<close>

datatype EntityType = REGULATION | DEPARTMENT | BUDGET | SERVICE | KPI

datatype ImpactType = Direct | Indirect | Conditional

text \<open>The values a condition object holds: \<^verbatim>\<open>null\<close>, booleans and numbers.\<close>

datatype jsvalue = JNull | JBool bool | JNum real

type_synonym conditionObject = "(string \<times> jsvalue) list"

record ImpactEdge =
  edgeTenantId :: string
  sourceType :: EntityType
  sourceId :: string
  targetType :: EntityType
  targetId :: string
  impactWeight :: real
  impactType :: ImpactType
  conditions :: "conditionObject option"
  isActive :: bool

record PropagationPath =
  pSourceType :: EntityType
  pSourceId :: string
  pTargetType :: EntityType
  pTargetId :: string
  pWeight :: real
  pImpactType :: ImpactType

record PropagationNode =
  nodeId :: string
  nodeType :: EntityType
  nodeName :: string
  impactScore :: real
  depth :: nat
  path :: "PropagationPath list"

record DependencyGraph =
  outgoing :: "string \<Rightarrow> ImpactEdge list option"
  incoming :: "string \<Rightarrow> ImpactEdge list option"
  allEdges :: "ImpactEdge list"

text \<open>
  The fields of \<^verbatim>\<open>PropagationEngine\<close>; the visited set is part of the run state below.
  \<^verbatim>\<open>entityNames\<close> stands for the store that \<^verbatim>\<open>getEntityInfo\<close> queries for a display name
  (\<open>None\<close> when the row is missing or the query fails).
\<close>

record PropagationEngine =
  tenantId :: string
  graph :: "DependencyGraph option"
  maxDepth :: nat
  impactThreshold :: real
  includeIndirect :: bool
  entityNames :: "EntityType \<Rightarrow> string \<Rightarrow> string option"

record PropagationConfig =
  cfgSourceType :: EntityType
  cfgSourceId :: string
  initialImpact :: "real option"

text \<open>The mutable state of one run: the visited set, the node map and the edge list.\<close>

record Traversal =
  visited :: "string set"
  nodes :: "(string \<times> PropagationNode) list"
  edges :: "PropagationPath list"

record PropagationResult =
  resSourceId :: string
  resSourceType :: EntityType
  totalAffected :: int
  resMaxDepth :: nat
  resNodes :: "(string \<times> PropagationNode) list"
  resEdges :: "PropagationPath list"

section \<open>Constants and helpers\<close>

fun entityTypeName :: "EntityType \<Rightarrow> string" where
  "entityTypeName REGULATION = ''REGULATION''"
| "entityTypeName DEPARTMENT = ''DEPARTMENT''"
| "entityTypeName BUDGET = ''BUDGET''"
| "entityTypeName SERVICE = ''SERVICE''"
| "entityTypeName KPI = ''KPI''"

text \<open>The template string \<^verbatim>\<open>`${type}:${id}`\<close>.\<close>

definition nodeKey :: "EntityType \<Rightarrow> string \<Rightarrow> string" where
  "nodeKey t i = entityTypeName t @ '':'' @ i"

fun SEVERITY_WEIGHTS :: "EntityType \<Rightarrow> real" where
  "SEVERITY_WEIGHTS DEPARTMENT = 1.0"
| "SEVERITY_WEIGHTS BUDGET = 0.9"
| "SEVERITY_WEIGHTS SERVICE = 0.8"
| "SEVERITY_WEIGHTS KPI = 0.7"
| "SEVERITY_WEIGHTS REGULATION = 1.2"

fun IMPACT_TYPE_MULTIPLIERS :: "ImpactType \<Rightarrow> real" where
  "IMPACT_TYPE_MULTIPLIERS Direct = 1.0"
| "IMPACT_TYPE_MULTIPLIERS Indirect = 0.6"
| "IMPACT_TYPE_MULTIPLIERS Conditional = 0.3"

definition getRiskLevel :: "real \<Rightarrow> string" where
  "getRiskLevel score =
     (if score \<ge> 0.9 then ''Critical''
      else if score \<ge> 0.7 then ''High''
      else if score \<ge> 0.5 then ''Medium''
      else ''Low'')"

definition getInitialImpactFromSeverity :: "string option \<Rightarrow> real" where
  "getInitialImpactFromSeverity severity =
     (if severity = Some ''Critical'' then 1.0
      else if severity = Some ''High'' then 0.8
      else if severity = Some ''Medium'' then 0.5
      else if severity = Some ''Low'' then 0.3
      else 0.5)"

section \<open>Condition evaluation\<close>

text \<open>JavaScript truthiness of a property read; an absent key reads \<^verbatim>\<open>undefined\<close>.\<close>

fun truthy :: "jsvalue option \<Rightarrow> bool" where
  "truthy None = False"
| "truthy (Some JNull) = False"
| "truthy (Some (JBool b)) = b"
| "truthy (Some (JNum x)) = (x \<noteq> 0)"

text \<open>The comparison \<^verbatim>\<open>v > 0\<close> after conversion to a number.\<close>

fun greaterThanZero :: "jsvalue option \<Rightarrow> bool" where
  "greaterThanZero None = False"
| "greaterThanZero (Some JNull) = False"
| "greaterThanZero (Some (JBool b)) = b"
| "greaterThanZero (Some (JNum x)) = (x > 0)"

definition evaluateConditions :: "conditionObject \<Rightarrow> bool" where
  "evaluateConditions c =
     (if truthy (map_of c ''required'') then map_of c ''required'' = Some (JBool True)
      else if truthy (map_of c ''threshold'') then greaterThanZero (map_of c ''threshold'')
      else True)"

section \<open>Graph construction\<close>

text \<open>
  The bucketing loop of \<^verbatim>\<open>buildDependencyGraph\<close> over the active edges the store returns
  for the tenant (the path taken on a cache miss; a hit returns a graph built this way
  before).
\<close>

definition addToBucket :: "(string \<Rightarrow> ImpactEdge list option) \<Rightarrow> string \<Rightarrow> ImpactEdge
    \<Rightarrow> (string \<Rightarrow> ImpactEdge list option)" where
  "addToBucket m k e = (case m k of None \<Rightarrow> m(k \<mapsto> [e]) | Some es \<Rightarrow> m(k \<mapsto> es @ [e]))"

definition buildDependencyGraph :: "ImpactEdge list \<Rightarrow> string \<Rightarrow> DependencyGraph" where
  "buildDependencyGraph store tenant =
     (let es = filter (\<lambda>e. edgeTenantId e = tenant \<and> isActive e) store
      in fold (\<lambda>e g. g\<lparr>outgoing := addToBucket (outgoing g) (nodeKey (sourceType e) (sourceId e)) e,
                        incoming := addToBucket (incoming g) (nodeKey (targetType e) (targetId e)) e\<rparr>)
           es \<lparr>outgoing = Map.empty, incoming = Map.empty, allEdges = es\<rparr>)"

definition outgoingEdges :: "DependencyGraph \<Rightarrow> string \<Rightarrow> ImpactEdge list" where
  "outgoingEdges g k = (case outgoing g k of None \<Rightarrow> [] | Some es \<Rightarrow> es)"

section \<open>The traversal\<close>

definition visitedKeyOf :: "string \<Rightarrow> string \<Rightarrow> string" where
  "visitedKeyOf currentKey targetKey = currentKey @ ''->'' @ targetKey"

text \<open>Lines 541 to 569 of the loop body: push the path entry, then update or add the target node.\<close>

definition acceptEdge :: "PropagationEngine \<Rightarrow> EntityType \<Rightarrow> string \<Rightarrow> nat \<Rightarrow> ImpactEdge
    \<Rightarrow> real \<Rightarrow> Traversal \<Rightarrow> Traversal" where
  "acceptEdge E currentType currentId d edge propagatedImpact st =
     (let targetKey = nodeKey (targetType edge) (targetId edge);
          pathEntry = \<lparr>pSourceType = currentType, pSourceId = currentId,
                       pTargetType = targetType edge, pTargetId = targetId edge,
                       pWeight = impactWeight edge, pImpactType = impactType edge\<rparr>;
          st1 = st\<lparr>edges := edges st @ [pathEntry]\<rparr>
      in case map_of (nodes st1) targetKey of
           Some existingNode \<Rightarrow>
             st1\<lparr>nodes := AList.update targetKey
                 (existingNode\<lparr>impactScore := max (impactScore existingNode) propagatedImpact,
                                path := path existingNode @ [pathEntry]\<rparr>) (nodes st1)\<rparr>
         | None \<Rightarrow>
             st1\<lparr>nodes := AList.update targetKey
                 \<lparr>nodeId = targetId edge, nodeType = targetType edge,
                  nodeName = (case entityNames E (targetType edge) (targetId edge) of
                                Some n \<Rightarrow> n | None \<Rightarrow> targetId edge),
                  impactScore = propagatedImpact, depth = d + 1, path = [pathEntry]\<rparr> (nodes st1)\<rparr>)"

definition propagatedImpactOf :: "real \<Rightarrow> ImpactEdge \<Rightarrow> real" where
  "propagatedImpactOf currentImpact edge =
     currentImpact * impactWeight edge * IMPACT_TYPE_MULTIPLIERS (impactType edge)
       * SEVERITY_WEIGHTS (targetType edge)"

text \<open>The three \<^verbatim>\<open>continue\<close> statements at the head of the loop body.\<close>

definition edgeSkipped :: "PropagationEngine \<Rightarrow> ImpactEdge \<Rightarrow> bool" where
  "edgeSkipped E edge =
     (if \<not> isActive edge then True
      else if impactType edge = Indirect \<and> \<not> includeIndirect E then True
      else if impactType edge = Conditional \<and> conditions edge \<noteq> None
        then \<not> evaluateConditions (the (conditions edge))
      else False)"

function propagateBFS :: "PropagationEngine \<Rightarrow> EntityType \<Rightarrow> string \<Rightarrow> real \<Rightarrow> nat
    \<Rightarrow> Traversal \<Rightarrow> Traversal" where
  "propagateBFS E currentType currentId currentImpact d st =
     (if graph E = None then st
      else if d \<ge> maxDepth E then st
      else if currentImpact < impactThreshold E then st
      else fold (\<lambda>edge s.
             if edgeSkipped E edge then s
             else if visitedKeyOf (nodeKey currentType currentId)
                       (nodeKey (targetType edge) (targetId edge)) \<in> visited s then s
             else if propagatedImpactOf currentImpact edge < impactThreshold E
               then s\<lparr>visited := insert (visitedKeyOf (nodeKey currentType currentId)
                       (nodeKey (targetType edge) (targetId edge))) (visited s)\<rparr>
             else propagateBFS E (targetType edge) (targetId edge)
                    (propagatedImpactOf currentImpact edge) (d + 1)
                    (acceptEdge E currentType currentId d edge (propagatedImpactOf currentImpact edge)
                       (s\<lparr>visited := insert (visitedKeyOf (nodeKey currentType currentId)
                          (nodeKey (targetType edge) (targetId edge))) (visited s)\<rparr>)))
           (outgoingEdges (the (graph E)) (nodeKey currentType currentId)) st)"
  by pat_completeness auto
termination
  by (relation "measure (\<lambda>(E, ct, ci, imp, d, st). maxDepth E - d)") auto


text \<open>
  \<^verbatim>\<open>propagate\<close>: load the graph when the engine has none, seed the node map with the source
  and run the traversal from depth 0. The options of the configuration other than the
  source and the initial impact are not read. \<^verbatim>\<open>executionTime\<close> is wall-clock time and is
  left out of the result.
\<close>

definition initialize :: "ImpactEdge list \<Rightarrow> PropagationEngine \<Rightarrow> PropagationEngine" where
  "initialize store E = E\<lparr>graph := Some (buildDependencyGraph store (tenantId E))\<rparr>"

definition sourceNode :: "PropagationEngine \<Rightarrow> EntityType \<Rightarrow> string \<Rightarrow> real \<Rightarrow> PropagationNode" where
  "sourceNode E sType sId init =
     \<lparr>nodeId = sId, nodeType = sType,
      nodeName = (case entityNames E sType sId of Some n \<Rightarrow> n | None \<Rightarrow> sId),
      impactScore = init, depth = 0, path = []\<rparr>"

text \<open>\<^verbatim>\<open>if (!this.graph) await this.initialize()\<close>.\<close>

definition ensureGraph :: "ImpactEdge list \<Rightarrow> PropagationEngine \<Rightarrow> PropagationEngine" where
  "ensureGraph store E0 = (if graph E0 = None then initialize store E0 else E0)"

text \<open>The default of the destructuring \<^verbatim>\<open>initialImpact = 1.0\<close>.\<close>

definition initialImpactOf :: "PropagationConfig \<Rightarrow> real" where
  "initialImpactOf config = (case initialImpact config of None \<Rightarrow> 1.0 | Some x \<Rightarrow> x)"

definition propagate :: "ImpactEdge list \<Rightarrow> PropagationEngine \<Rightarrow> PropagationConfig \<Rightarrow> PropagationResult" where
  "propagate store E0 config =
     (let E = ensureGraph store E0;
          init = initialImpactOf config;
          sourceKey = nodeKey (cfgSourceType config) (cfgSourceId config);
          st = propagateBFS E (cfgSourceType config) (cfgSourceId config) init 0
                 \<lparr>visited = {},
                  nodes = AList.update sourceKey
                            (sourceNode E (cfgSourceType config) (cfgSourceId config) init) [],
                  edges = []\<rparr>
      in \<lparr>resSourceId = cfgSourceId config, resSourceType = cfgSourceType config,
          totalAffected = int (length (nodes st)) - 1,
          resMaxDepth = fold max (map (\<lambda>kn. depth (snd kn)) (nodes st)) 0,
          resNodes = nodes st, resEdges = edges st\<rparr>)"

text \<open>The constructor of the engine with its defaults.\<close>

definition newEngine :: "(EntityType \<Rightarrow> string \<Rightarrow> string option) \<Rightarrow> string \<Rightarrow> nat option
    \<Rightarrow> real option \<Rightarrow> bool option \<Rightarrow> PropagationEngine" where
  "newEngine names t md th ii =
     \<lparr>tenantId = t, graph = None,
      maxDepth = (case md of None \<Rightarrow> 10 | Some m \<Rightarrow> m),
      impactThreshold = (case th of None \<Rightarrow> 0.01 | Some x \<Rightarrow> x),
      includeIndirect = (case ii of None \<Rightarrow> True | Some b \<Rightarrow> b),
      entityNames = names\<rparr>"

declare propagateBFS.simps [simp del]

section \<open>The in-memory cache\<close>

text \<open>
  \<^verbatim>\<open>MemoryCache\<close>: the entry map in insertion order, the statistics and the list of
  invalidation notifications handed to the registered callbacks. \<^verbatim>\<open>Date.now()\<close> is the
  argument \<open>now\<close> of every operation that reads the clock, in milliseconds.
\<close>

record 'a CacheEntry =
  data :: 'a
  expiresAt :: int
  createdAt :: int
  version :: nat
  tags :: "string list"

record CacheStats =
  hits :: nat
  misses :: nat
  evictions :: nat
  csize :: nat

record 'a MemoryCache =
  cache :: "(string \<times> 'a CacheEntry) list"
  stats :: CacheStats
  notified :: "(string \<times> string list) list"

definition newCache :: "'a MemoryCache" where
  "newCache = \<lparr>cache = [], stats = \<lparr>hits = 0, misses = 0, evictions = 0, csize = 0\<rparr>, notified = []\<rparr>"

definition generateKey :: "string \<Rightarrow> string \<Rightarrow> string" where
  "generateKey tenant key = tenant @ '':'' @ key"

definition cache_set :: "'a MemoryCache \<Rightarrow> int \<Rightarrow> string \<Rightarrow> string \<Rightarrow> 'a \<Rightarrow> int option
    \<Rightarrow> string list option \<Rightarrow> 'a MemoryCache" where
  "cache_set c now tenant key d ttlOpt tagsOpt =
     (let fullKey = generateKey tenant key;
          ttl = (case ttlOpt of None \<Rightarrow> 30 * 60 * 1000 | Some t \<Rightarrow> t);
          tgs = (case tagsOpt of None \<Rightarrow> [] | Some ts \<Rightarrow> ts);
          entry = \<lparr>data = d, expiresAt = now + ttl, createdAt = now, version = 1,
                   tags = tenant # tgs\<rparr>;
          cache' = AList.update fullKey entry (cache c)
      in c\<lparr>cache := cache', stats := (stats c)\<lparr>csize := length cache'\<rparr>\<rparr>)"

definition cache_get :: "'a MemoryCache \<Rightarrow> int \<Rightarrow> string \<Rightarrow> string \<Rightarrow> 'a option \<times> 'a MemoryCache" where
  "cache_get c now tenant key =
     (let fullKey = generateKey tenant key
      in case map_of (cache c) fullKey of
           None \<Rightarrow> (None, c\<lparr>stats := (stats c)\<lparr>misses := misses (stats c) + 1\<rparr>\<rparr>)
         | Some entry \<Rightarrow>
             if now > expiresAt entry
             then (let cache' = AList.delete fullKey (cache c)
                   in (None, c\<lparr>cache := cache',
                               stats := (stats c)\<lparr>misses := misses (stats c) + 1,
                                                  evictions := evictions (stats c) + 1,
                                                  csize := length cache'\<rparr>\<rparr>))
             else (Some (data entry), c\<lparr>stats := (stats c)\<lparr>hits := hits (stats c) + 1\<rparr>\<rparr>))"

text \<open>A run of \<^verbatim>\<open>get\<close> calls for one key, at the given clock readings.\<close>

fun cache_gets :: "'a MemoryCache \<Rightarrow> int list \<Rightarrow> string \<Rightarrow> string \<Rightarrow> 'a option list \<times> 'a MemoryCache" where
  "cache_gets c [] tenant key = ([], c)"
| "cache_gets c (now # ts) tenant key =
     (case cache_get c now tenant key of
        (r, c') \<Rightarrow> (case cache_gets c' ts tenant key of (rs, c'') \<Rightarrow> (r # rs, c'')))"

text \<open>
  The second loop of the three invalidation routines: delete each collected key and
  notify the callbacks when the entry was still there.
\<close>

definition deleteKeys :: "string list \<Rightarrow> 'a MemoryCache \<Rightarrow> 'a MemoryCache" where
  "deleteKeys keysToDelete c =
     fold (\<lambda>key c'. case map_of (cache c') key of
                        None \<Rightarrow> c'\<lparr>cache := AList.delete key (cache c')\<rparr>
                      | Some entry \<Rightarrow> c'\<lparr>cache := AList.delete key (cache c'),
                                          notified := notified c' @ [(key, tags entry)]\<rparr>)
          keysToDelete c"

definition invalidateSweep :: "('a CacheEntry \<Rightarrow> bool) \<Rightarrow> 'a MemoryCache \<Rightarrow> nat \<times> 'a MemoryCache" where
  "invalidateSweep hit c =
     (let keysToDelete = map fst (filter (\<lambda>ke. hit (snd ke)) (cache c));
          count = length keysToDelete;
          c' = deleteKeys keysToDelete c
      in (count, c'\<lparr>stats := (stats c')\<lparr>evictions := evictions (stats c') + count,
                                          csize := length (cache c')\<rparr>\<rparr>))"

definition invalidateTenant :: "'a MemoryCache \<Rightarrow> string \<Rightarrow> nat \<times> 'a MemoryCache" where
  "invalidateTenant c tenant = invalidateSweep (\<lambda>entry. tenant \<in> set (tags entry)) c"

definition invalidateByTag :: "'a MemoryCache \<Rightarrow> string \<Rightarrow> nat \<times> 'a MemoryCache" where
  "invalidateByTag c tag = invalidateSweep (\<lambda>entry. tag \<in> set (tags entry)) c"

definition invalidateByTags :: "'a MemoryCache \<Rightarrow> string list \<Rightarrow> nat \<times> 'a MemoryCache" where
  "invalidateByTags c tgs = invalidateSweep (\<lambda>entry. list_ex (\<lambda>tag. tag \<in> set (tags entry)) tgs) c"

definition invalidateRegulation :: "'a MemoryCache \<Rightarrow> string \<Rightarrow> string \<Rightarrow> 'a MemoryCache" where
  "invalidateRegulation c tenant regulationId =
     snd (invalidateByTags c
       [''regulation:'' @ regulationId, ''dependency-graph'', ''risk-scores'', ''impact-analysis''])"

definition invalidateEntity :: "'a MemoryCache \<Rightarrow> string \<Rightarrow> string \<Rightarrow> string \<Rightarrow> 'a MemoryCache" where
  "invalidateEntity c tenant entityType entityId =
     snd (invalidateByTags c
       [''entity:'' @ entityType @ '':'' @ entityId, ''dependency-graph'', ''risk-scores''])"

definition invalidateEdge :: "'a MemoryCache \<Rightarrow> string \<Rightarrow> 'a MemoryCache" where
  "invalidateEdge c tenant = snd (invalidateByTag c ''dependency-graph'')"

section \<open>Risk index calculator\<close>

text \<open>
  The store as the calculator reads it: the regulation rows, the edge rows and the display
  names. \<^verbatim>\<open>findMany\<close> with a \<^verbatim>\<open>where\<close> clause is a filter over the rows.
\<close>

record Regulation =
  regId :: string
  regTenantId :: string
  regStatus :: string
  severity :: "string option"
  effectiveDate :: int

record Store =
  regulations :: "Regulation list"
  impactEdges :: "ImpactEdge list"
  displayNames :: "EntityType \<Rightarrow> string \<Rightarrow> string option"

record EntityRisk =
  totalRisk :: real
  factors :: "(string \<times> real) list"

record RiskCalculationResult =
  entityType :: string
  entityId :: "string option"
  baseRiskScore :: real
  adjustedRiskScore :: real
  riskLevel :: string
  riskFactors :: "(string \<times> real) list"

definition getSeverityMultiplier :: "string option \<Rightarrow> real" where
  "getSeverityMultiplier sev =
     (if sev = Some ''Critical'' then 2.0
      else if sev = Some ''High'' then 1.5
      else if sev = Some ''Medium'' then 1.0
      else if sev = Some ''Low'' then 0.5
      else 1.0)"

text \<open>\<^verbatim>\<open>key.split(":")\<close>.\<close>

fun splitColon :: "string \<Rightarrow> string list" where
  "splitColon [] = [[]]"
| "splitColon (c # cs) =
     (if c = CHR '':'' then [] # splitColon cs
      else (case splitColon cs of [] \<Rightarrow> [[c]] | p # ps \<Rightarrow> (c # p) # ps))"

definition activeRegulations :: "Store \<Rightarrow> string \<Rightarrow> Regulation list" where
  "activeRegulations S tenant =
     filter (\<lambda>r. regTenantId r = tenant \<and> regStatus r = ''Active'') (regulations S)"

text \<open>
  The propagation \<^verbatim>\<open>calculateAllRisks\<close> runs for one regulation: a new engine with the
  default options, and the configuration it passes, which has no \<^verbatim>\<open>initialImpact\<close> (its
  \<^verbatim>\<open>maxDepth\<close> is not read by \<^verbatim>\<open>propagate\<close>).
\<close>

definition regulationEngine :: "Store \<Rightarrow> string \<Rightarrow> PropagationEngine" where
  "regulationEngine S tenant = newEngine (displayNames S) tenant None None None"

definition regulationConfig :: "Regulation \<Rightarrow> PropagationConfig" where
  "regulationConfig regulation =
     \<lparr>cfgSourceType = REGULATION, cfgSourceId = regId regulation, initialImpact = None\<rparr>"

definition regulationResult :: "Store \<Rightarrow> string \<Rightarrow> Regulation \<Rightarrow> PropagationResult" where
  "regulationResult S tenant regulation =
     propagate (impactEdges S) (regulationEngine S tenant) (regulationConfig regulation)"

text \<open>The callback of \<^verbatim>\<open>result.nodes.forEach\<close>.\<close>

definition addNodeRisk :: "Regulation \<Rightarrow> string \<times> PropagationNode \<Rightarrow> (string \<times> EntityRisk) list
    \<Rightarrow> (string \<times> EntityRisk) list" where
  "addNodeRisk regulation kn entityRisks =
     (let key = fst kn; node = snd kn;
          er1 = (if map_of entityRisks key = None
                 then AList.update key \<lparr>totalRisk = 0, factors = []\<rparr> entityRisks
                 else entityRisks)
      in case map_of er1 key of
           None \<Rightarrow> er1
         | Some entity \<Rightarrow>
             AList.update key
               \<lparr>totalRisk = totalRisk entity
                    + impactScore node * getSeverityMultiplier (severity regulation),
                factors = AList.update (regId regulation) (impactScore node) (factors entity)\<rparr>
               er1)"

definition aggregateRisks :: "Store \<Rightarrow> string \<Rightarrow> Regulation list \<Rightarrow> (string \<times> EntityRisk) list" where
  "aggregateRisks S tenant regs =
     fold (\<lambda>regulation entityRisks.
             fold (addNodeRisk regulation) (resNodes (regulationResult S tenant regulation))
               entityRisks)
          regs []"

definition toRiskResult :: "nat \<Rightarrow> string \<times> EntityRisk \<Rightarrow> RiskCalculationResult" where
  "toRiskResult regulationsLength kd =
     (let parts = splitColon (fst kd); d = snd kd
      in \<lparr>entityType = (case parts of [] \<Rightarrow> [] | t # rest \<Rightarrow> t),
          entityId = (case parts of t # i # rest \<Rightarrow> Some i | _ \<Rightarrow> None),
          baseRiskScore = totalRisk d / real regulationsLength,
          adjustedRiskScore = totalRisk d,
          riskLevel = getRiskLevel (totalRisk d / real regulationsLength),
          riskFactors = factors d\<rparr>)"

definition calculateAllRisks :: "Store \<Rightarrow> string \<Rightarrow> RiskCalculationResult list" where
  "calculateAllRisks S tenant =
     (let regs = activeRegulations S tenant;
          entityRisks = aggregateRisks S tenant regs
      in sort_key (\<lambda>r. - adjustedRiskScore r) (map (toRiskResult (length regs)) entityRisks))"

section \<open>Timeline deltas\<close>

record SimulationDelta =
  entityKey :: string
  beforeValue :: real
  afterValue :: real
  delta :: real
  percentChange :: real

text \<open>\<^verbatim>\<open>new Set([...])\<close>: the elements in order of first occurrence.\<close>

definition newSet :: "'a list \<Rightarrow> 'a list" where
  "newSet xs = fold (\<lambda>x acc. if x \<in> set acc then acc else acc @ [x]) xs []"

text \<open>\<^verbatim>\<open>m.get(key) ?? 0\<close>.\<close>

definition getOrZero :: "(string \<times> real) list \<Rightarrow> string \<Rightarrow> real" where
  "getOrZero m key = (case map_of m key of None \<Rightarrow> 0 | Some x \<Rightarrow> x)"

definition deltaFor :: "(string \<times> real) list \<Rightarrow> (string \<times> real) list \<Rightarrow> string \<Rightarrow> SimulationDelta list" where
  "deltaFor before after key =
     (let bv = getOrZero before key; av = getOrZero after key; dl = av - bv
      in if \<bar>dl\<bar> > 0.01
         then [\<lparr>entityKey = key, beforeValue = bv, afterValue = av, delta = dl,
                 percentChange = (if bv \<noteq> 0 then (dl / bv) * 100 else 100)\<rparr>]
         else [])"

definition calculateDeltas :: "(string \<times> real) list \<Rightarrow> (string \<times> real) list \<Rightarrow> SimulationDelta list" where
  "calculateDeltas before after =
     (let allKeys = newSet (map fst before @ map fst after);
          deltas = concat (map (deltaFor before after) allKeys)
      in sort_key (\<lambda>x. - \<bar>delta x\<bar>) deltas)"

section \<open>Inputs of the scenarios\<close>

text \<open>A store without display names, and an active, unconditional edge of tenant \<^verbatim>\<open>T1\<close>.\<close>

definition noNames :: "EntityType \<Rightarrow> string \<Rightarrow> string option" where
  "noNames t i = None"

definition activeEdge :: "EntityType \<Rightarrow> string \<Rightarrow> EntityType \<Rightarrow> string \<Rightarrow> real \<Rightarrow> ImpactType
    \<Rightarrow> ImpactEdge" where
  "activeEdge st si tt ti w ty =
     \<lparr>edgeTenantId = ''T1'', sourceType = st, sourceId = si, targetType = tt, targetId = ti,
      impactWeight = w, impactType = ty, conditions = None, isActive = True\<rparr>"

definition sourceConfig :: "EntityType \<Rightarrow> string \<Rightarrow> real option \<Rightarrow> PropagationConfig" where
  "sourceConfig t i x = \<lparr>cfgSourceType = t, cfgSourceId = i, initialImpact = x\<rparr>"

text \<open>The two node keys of an accepted edge, and the key the visited set holds for it.\<close>

definition pathSourceKey :: "PropagationPath \<Rightarrow> string" where
  "pathSourceKey p = nodeKey (pSourceType p) (pSourceId p)"

definition pathTargetKey :: "PropagationPath \<Rightarrow> string" where
  "pathTargetKey p = nodeKey (pTargetType p) (pTargetId p)"

definition pathVisitedKey :: "PropagationPath \<Rightarrow> string" where
  "pathVisitedKey p = visitedKeyOf (pathSourceKey p) (pathTargetKey p)"

text \<open>
  What one regulation contributes to the total risk of the node \<open>key\<close>: the score of that
  node in the regulation's propagation times the severity multiplier, and nothing when the
  propagation does not reach the node.
\<close>

definition riskContribution :: "Store \<Rightarrow> string \<Rightarrow> string \<Rightarrow> Regulation \<Rightarrow> real" where
  "riskContribution S tenant key regulation =
     (case map_of (resNodes (regulationResult S tenant regulation)) key of
        None \<Rightarrow> 0
      | Some node \<Rightarrow> impactScore node * getSeverityMultiplier (severity regulation))"

text \<open>An active regulation of tenant \<^verbatim>\<open>T1\<close>.\<close>

definition activeRegulation :: "string \<Rightarrow> string \<Rightarrow> Regulation" where
  "activeRegulation i sev =
     \<lparr>regId = i, regTenantId = ''T1'', regStatus = ''Active'', severity = Some sev,
      effectiveDate = 0\<rparr>"

text \<open>The total and the factor list the aggregation map holds for a key, if any.\<close>

definition riskTotal :: "(string \<times> EntityRisk) list \<Rightarrow> string \<Rightarrow> real" where
  "riskTotal er k = (case map_of er k of None \<Rightarrow> 0 | Some d \<Rightarrow> totalRisk d)"

definition riskFactorsOf :: "(string \<times> EntityRisk) list \<Rightarrow> string \<Rightarrow> (string \<times> real) list" where
  "riskFactorsOf er k = (case map_of er k of None \<Rightarrow> [] | Some d \<Rightarrow> factors d)"

section \<open>The traversal with the carried impacts\<close>

text \<open>
  \<^verbatim>\<open>propagateBFS\<close> once more, keeping beside the run state the value of \<^verbatim>\<open>propagatedImpact\<close>
  of every accepted edge, in the order of the edge list. The run state it computes is the
  one \<^verbatim>\<open>propagateBFS\<close> computes; the list is what the accepted edges carried.
\<close>

function propagateBFSLog :: "PropagationEngine \<Rightarrow> EntityType \<Rightarrow> string \<Rightarrow> real \<Rightarrow> nat
    \<Rightarrow> Traversal \<times> real list \<Rightarrow> Traversal \<times> real list" where
  "propagateBFSLog E currentType currentId currentImpact d sl =
     (if graph E = None then sl
      else if d \<ge> maxDepth E then sl
      else if currentImpact < impactThreshold E then sl
      else fold (\<lambda>edge sl.
             if edgeSkipped E edge then sl
             else if visitedKeyOf (nodeKey currentType currentId)
                       (nodeKey (targetType edge) (targetId edge)) \<in> visited (fst sl) then sl
             else if propagatedImpactOf currentImpact edge < impactThreshold E
               then ((fst sl)\<lparr>visited := insert (visitedKeyOf (nodeKey currentType currentId)
                       (nodeKey (targetType edge) (targetId edge))) (visited (fst sl))\<rparr>, snd sl)
             else propagateBFSLog E (targetType edge) (targetId edge)
                    (propagatedImpactOf currentImpact edge) (d + 1)
                    (acceptEdge E currentType currentId d edge (propagatedImpactOf currentImpact edge)
                       ((fst sl)\<lparr>visited := insert (visitedKeyOf (nodeKey currentType currentId)
                          (nodeKey (targetType edge) (targetId edge))) (visited (fst sl))\<rparr>),
                     snd sl @ [propagatedImpactOf currentImpact edge]))
           (outgoingEdges (the (graph E)) (nodeKey currentType currentId)) sl)"
  by pat_completeness auto
termination
  by (relation "measure (\<lambda>(E, ct, ci, imp, d, sl). maxDepth E - d)") auto

declare propagateBFSLog.simps [simp del]

text \<open>The impacts the accepted edges of a propagation carried, edge by edge.\<close>

definition carriedImpacts :: "ImpactEdge list \<Rightarrow> PropagationEngine \<Rightarrow> PropagationConfig \<Rightarrow> real list" where
  "carriedImpacts store E0 config =
     snd (propagateBFSLog (ensureGraph store E0) (cfgSourceType config) (cfgSourceId config)
            (initialImpactOf config) 0
            (\<lparr>visited = {},
              nodes = AList.update (nodeKey (cfgSourceType config) (cfgSourceId config))
                        (sourceNode (ensureGraph store E0) (cfgSourceType config)
                           (cfgSourceId config) (initialImpactOf config)) [],
              edges = []\<rparr>, []))"

text \<open>Of these, the impacts carried by the edges that lead into the node \<open>k0\<close>.\<close>

definition carriedInto :: "string \<Rightarrow> PropagationPath list \<Rightarrow> real list \<Rightarrow> real list" where
  "carriedInto k0 es qs = map snd (filter (\<lambda>pq. pathTargetKey (fst pq) = k0) (zip es qs))"

text \<open>
  What the run keeps true of the source node \<open>k0\<close> seeded with \<open>x\<close>: one carried impact per
  accepted edge, and the source in the node map at depth 0 with the largest of \<open>x\<close> and the
  impacts carried into it as its score.
\<close>

definition sourceScoreInv :: "string \<Rightarrow> real \<Rightarrow> Traversal \<times> real list \<Rightarrow> bool" where
  "sourceScoreInv k0 x sl \<longleftrightarrow>
     length (snd sl) = length (edges (fst sl))
     \<and> (\<exists>n. map_of (nodes (fst sl)) k0 = Some n \<and> depth n = 0
            \<and> impactScore n = fold max (carriedInto k0 (edges (fst sl)) (snd sl)) x)"

section \<open>The traversal without the visited test\<close>

text \<open>
  The loop of \<^verbatim>\<open>propagateBFS\<close> with the test on the visited set left out and no state: for
  every outgoing edge that the edge rules do not skip, in order, the key the visited set
  would receive, together with the key of the target when the propagated impact reaches the
  threshold, followed in that case by what the call for the target examines. It is what the
  traversal examines on a graph where no edge key comes up twice.
\<close>

function examined :: "PropagationEngine \<Rightarrow> EntityType \<Rightarrow> string \<Rightarrow> real \<Rightarrow> nat
    \<Rightarrow> (string \<times> string option) list" where
  "examined E currentType currentId currentImpact d =
     (if graph E = None then []
      else if d \<ge> maxDepth E then []
      else if currentImpact < impactThreshold E then []
      else concat (map (\<lambda>edge.
             if edgeSkipped E edge then []
             else if propagatedImpactOf currentImpact edge < impactThreshold E
               then [(visitedKeyOf (nodeKey currentType currentId)
                        (nodeKey (targetType edge) (targetId edge)), None)]
             else (visitedKeyOf (nodeKey currentType currentId)
                        (nodeKey (targetType edge) (targetId edge)),
                   Some (nodeKey (targetType edge) (targetId edge)))
                  # examined E (targetType edge) (targetId edge)
                      (propagatedImpactOf currentImpact edge) (d + 1))
           (outgoingEdges (the (graph E)) (nodeKey currentType currentId))))"
  by pat_completeness auto
termination
  by (relation "measure (\<lambda>(E, ct, ci, imp, d). maxDepth E - d)") auto

declare examined.simps [simp del]

definition acceptedTargets :: "(string \<times> string option) list \<Rightarrow> string set" where
  "acceptedTargets xs = {t. \<exists>k. (k, Some t) \<in> set xs}"

section \<open>Evaluating the scenarios\<close>

text \<open>The definitions a concrete propagation unfolds.\<close>

lemmas scenario_defs = propagate_def propagateBFS.simps newEngine_def initialize_def
  ensureGraph_def initialImpactOf_def noNames_def sourceConfig_def activeEdge_def
  buildDependencyGraph_def addToBucket_def nodeKey_def outgoingEdges_def sourceNode_def
  edgeSkipped_def visitedKeyOf_def propagatedImpactOf_def acceptEdge_def Let_def

section \<open>Condition evaluation on falsy values\<close>

text \<open>
  C1. The claim reads the two tests of \<^verbatim>\<open>evaluateConditions\<close> as tests for the presence of
  a key. The code tests the truthiness of the value: with \<^verbatim>\<open>{required: false}\<close> and with
  \<^verbatim>\<open>{threshold: 0}\<close> neither branch is taken and the conditions hold, and with
  \<^verbatim>\<open>{required: false, threshold: 5}\<close> it is \<^verbatim>\<open>threshold\<close> that decides. A Conditional edge
  carrying \<^verbatim>\<open>{required: false}\<close> is traversed: its target is in the result.
\<close>

theorem evaluateConditions_falsy_values_pass:
  "evaluateConditions [(''required'', JBool False)] = True
   \<and> evaluateConditions [(''threshold'', JNum 0)] = True
   \<and> evaluateConditions [(''required'', JBool False), (''threshold'', JNum 5)] = True
   \<and> evaluateConditions [(''required'', JBool False), (''threshold'', JNum (- 1))] = False
   \<and> map fst (resNodes (propagate
        [\<lparr>edgeTenantId = ''T1'', sourceType = REGULATION, sourceId = ''R1'',
          targetType = DEPARTMENT, targetId = ''D1'', impactWeight = 1,
          impactType = Conditional, conditions = Some [(''required'', JBool False)],
          isActive = True\<rparr>]
        (newEngine noNames ''T1'' None None None) (sourceConfig REGULATION ''R1'' None)))
     = [''REGULATION:R1'', ''DEPARTMENT:D1'']"
  by (simp add: evaluateConditions_def scenario_defs)

section \<open>Cache: round trip, expiry and invalidation\<close>

lemma cache_get_absent:
  "map_of (cache c) (generateKey tenant key) = None \<Longrightarrow>
   cache_get c now tenant key = (None, c\<lparr>stats := (stats c)\<lparr>misses := misses (stats c) + 1\<rparr>\<rparr>)"
  by (simp add: cache_get_def)

lemma cache_gets_absent:
  "map_of (cache c) (generateKey tenant key) = None \<Longrightarrow>
   set (fst (cache_gets c ts tenant key)) \<subseteq> {None}
   \<and> evictions (stats (snd (cache_gets c ts tenant key))) = evictions (stats c)"
proof (induction ts arbitrary: c)
  case Nil
  then show ?case by simp
next
  case (Cons now ts)
  let ?c' = "c\<lparr>stats := (stats c)\<lparr>misses := misses (stats c) + 1\<rparr>\<rparr>"
  have absent: "map_of (cache ?c') (generateKey tenant key) = None"
    using Cons.prems by simp
  have step: "cache_get c now tenant key = (None, ?c')"
    using Cons.prems by (rule cache_get_absent)
  show ?case
    using Cons.IH [OF absent] by (simp add: step case_prod_beta)
qed

lemma cache_get_after_set:
  "cache_get (cache_set c t0 tenant key v ttl tgs) t1 tenant key =
     (let c1 = cache_set c t0 tenant key v ttl tgs;
          e = t0 + (case ttl of None \<Rightarrow> 30 * 60 * 1000 | Some t \<Rightarrow> t)
      in if t1 > e
         then (None, c1\<lparr>cache := AList.delete (generateKey tenant key) (cache c1),
                         stats := (stats c1)\<lparr>misses := misses (stats c1) + 1,
                                             evictions := evictions (stats c1) + 1,
                                             csize := length (AList.delete (generateKey tenant key) (cache c1))\<rparr>\<rparr>)
         else (Some v, c1\<lparr>stats := (stats c1)\<lparr>hits := hits (stats c1) + 1\<rparr>\<rparr>))"
  by (simp add: cache_get_def cache_set_def Let_def update_conv')

text \<open>
  C8. Cache round-trip and single-count eviction. After \<^verbatim>\<open>set(tenant, key, v, {ttl})\<close> at
  time \<open>t0\<close>, a \<^verbatim>\<open>get\<close> of the same tenant and key at a time \<open>t1\<close> not after \<open>t0 + ttl\<close>
  (thirty minutes when the ttl is omitted) returns \<open>v\<close>. A \<^verbatim>\<open>get\<close> at a time \<open>t2\<close> after
  \<open>t0 + ttl\<close> returns absent and raises the evictions counter by one, and every later run
  of \<^verbatim>\<open>get\<close> calls for that key, at any times \<open>ts\<close>, returns absent each time and leaves
  the counter at that value: the expired entry is counted exactly once.
\<close>

theorem cache_roundtrip_single_eviction:
  fixes c :: "'a MemoryCache"
  shows "(t1 \<le> t0 + (case ttl of None \<Rightarrow> 30 * 60 * 1000 | Some t \<Rightarrow> t) \<longrightarrow>
            fst (cache_get (cache_set c t0 tenant key v ttl tgs) t1 tenant key) = Some v)
       \<and> (t2 > t0 + (case ttl of None \<Rightarrow> 30 * 60 * 1000 | Some t \<Rightarrow> t) \<longrightarrow>
            fst (cache_get (cache_set c t0 tenant key v ttl tgs) t2 tenant key) = None
            \<and> evictions (stats (snd (cache_get (cache_set c t0 tenant key v ttl tgs) t2 tenant key)))
                = evictions (stats c) + 1
            \<and> set (fst (cache_gets (snd (cache_get (cache_set c t0 tenant key v ttl tgs) t2 tenant key))
                          ts tenant key)) \<subseteq> {None}
            \<and> evictions (stats (snd (cache_gets
                   (snd (cache_get (cache_set c t0 tenant key v ttl tgs) t2 tenant key)) ts tenant key)))
                = evictions (stats c) + 1)"
proof (intro conjI impI)
  let ?e = "t0 + (case ttl of None \<Rightarrow> 30 * 60 * 1000 | Some t \<Rightarrow> t)"
  let ?c1 = "cache_set c t0 tenant key v ttl tgs"
  show "fst (cache_get ?c1 t1 tenant key) = Some v" if "t1 \<le> ?e"
    using that by (simp add: cache_get_after_set Let_def)
  assume late: "?e < t2"
  let ?c2 = "snd (cache_get ?c1 t2 tenant key)"
  have ev1: "evictions (stats ?c1) = evictions (stats c)"
    by (simp add: cache_set_def Let_def)
  show none: "fst (cache_get ?c1 t2 tenant key) = None"
    using late by (simp add: cache_get_after_set Let_def)
  show ev2: "evictions (stats ?c2) = evictions (stats c) + 1"
    using late ev1 by (simp add: cache_get_after_set Let_def)
  have gone: "map_of (cache ?c2) (generateKey tenant key) = None"
    using late by (simp add: cache_get_after_set Let_def delete_conv')
  from cache_gets_absent [OF gone, of ts] ev2
  show "set (fst (cache_gets ?c2 ts tenant key)) \<subseteq> {None}"
    and "evictions (stats (snd (cache_gets ?c2 ts tenant key))) = evictions (stats c) + 1"
    by simp_all
qed

theorem cache_roundtrip_single_eviction_witness:
  "fst (cache_get (cache_set (newCache :: nat MemoryCache) 0 ''T1'' ''k'' 7 (Some 1000) None)
         1000 ''T1'' ''k'') = Some 7
   \<and> fst (cache_get (cache_set (newCache :: nat MemoryCache) 0 ''T1'' ''k'' 7 (Some 1000) None)
         1001 ''T1'' ''k'') = None
   \<and> evictions (stats (snd (cache_gets
        (snd (cache_get (cache_set (newCache :: nat MemoryCache) 0 ''T1'' ''k'' 7 (Some 1000) None)
           1001 ''T1'' ''k'')) [1002, 5000, 1003] ''T1'' ''k''))) = 1"
  using cache_roundtrip_single_eviction [of 1000 0 "Some 1000" "newCache :: nat MemoryCache"
      "''T1''" "''k''" 7 None 1001 "[1002, 5000, 1003]"]
  by (simp add: newCache_def)

text \<open>
  C7. Tenant isolation of cache invalidation. The claim is that an invalidation made on
  behalf of tenant A never removes an entry stored under tenant B. The convenience
  routines do not read their tenant argument: they sweep by the tags \<^verbatim>\<open>dependency-graph\<close>,
  \<^verbatim>\<open>risk-scores\<close> and \<^verbatim>\<open>impact-analysis\<close>, which the entries of every tenant share. With the
  dependency graph of tenant B cached the way \<^verbatim>\<open>buildDependencyGraph\<close> caches it,
  \<^verbatim>\<open>invalidateEdge(A)\<close>, \<^verbatim>\<open>invalidateRegulation(A, R1)\<close> and
  \<^verbatim>\<open>invalidateEntity(A, DEPARTMENT, D1)\<close> each remove it, although it has not expired.
\<close>

theorem invalidation_crosses_tenants:
  "fst (cache_get (invalidateEdge
          (cache_set (newCache :: nat MemoryCache) 0 ''B'' ''dependency-graph:B'' 7
             (Some 3600000) (Some [''dependency-graph'', ''B''])) ''A'') 1 ''B'' ''dependency-graph:B'') = None
   \<and> cache (invalidateRegulation
          (cache_set (newCache :: nat MemoryCache) 0 ''B'' ''dependency-graph:B'' 7
             (Some 3600000) (Some [''dependency-graph'', ''B''])) ''A'' ''R1'') = []
   \<and> cache (invalidateEntity
          (cache_set (newCache :: nat MemoryCache) 0 ''B'' ''dependency-graph:B'' 7
             (Some 3600000) (Some [''dependency-graph'', ''B''])) ''A'' ''DEPARTMENT'' ''D1'') = []
   \<and> fst (cache_get
          (cache_set (newCache :: nat MemoryCache) 0 ''B'' ''dependency-graph:B'' 7
             (Some 3600000) (Some [''dependency-graph'', ''B''])) 1 ''B'' ''dependency-graph:B'') = Some 7"
  by (simp add: newCache_def cache_set_def cache_get_def invalidateEdge_def invalidateRegulation_def
      invalidateEntity_def invalidateByTag_def invalidateByTags_def invalidateSweep_def deleteKeys_def
      generateKey_def Let_def)

section \<open>Timeline deltas are filtered and ordered\<close>

lemma newSet_fold_set:
  "set (fold (\<lambda>x acc. if x \<in> set acc then acc else acc @ [x]) xs ys) = set xs \<union> set ys"
  by (induction xs arbitrary: ys) auto

lemma newSet_fold_distinct:
  "distinct ys \<Longrightarrow> distinct (fold (\<lambda>x acc. if x \<in> set acc then acc else acc @ [x]) xs ys)"
  by (induction xs arbitrary: ys) auto

lemma set_newSet: "set (newSet xs) = set xs"
  by (simp add: newSet_def newSet_fold_set)

lemma distinct_newSet: "distinct (newSet xs)"
  by (simp add: newSet_def newSet_fold_distinct)

lemma deltaFor_key: "d \<in> set (deltaFor before after k) \<Longrightarrow> entityKey d = k"
  by (auto simp: deltaFor_def Let_def split: if_splits)

lemma distinct_deltaFor_keys:
  "distinct ks \<Longrightarrow> distinct (map entityKey (concat (map (deltaFor before after) ks)))"
proof (induction ks)
  case Nil
  then show ?case by simp
next
  case (Cons k ks)
  have "distinct (map entityKey (deltaFor before after k))"
    by (simp add: deltaFor_def Let_def)
  moreover have "entityKey d \<noteq> entityKey d'"
    if "d \<in> set (deltaFor before after k)" and "d' \<in> set (concat (map (deltaFor before after) ks))"
    for d d'
  proof -
    from that(2) obtain k' where "k' \<in> set ks" and "d' \<in> set (deltaFor before after k')"
      by auto
    with that(1) Cons.prems show ?thesis
      by (auto dest!: deltaFor_key)
  qed
  ultimately show ?case
    using Cons by auto
qed

lemma set_calculateDeltas:
  "set (calculateDeltas before after)
     = (\<Union>k \<in> fst ` set before \<union> fst ` set after. set (deltaFor before after k))"
  by (simp add: calculateDeltas_def Let_def set_newSet)

text \<open>
  C9. Timeline deltas. Every entry \<^verbatim>\<open>calculateDeltas\<close> returns has a key of the before map
  or of the after map, carries the values of that key in the two maps (0 for an absent
  key), has \<open>delta = after - before\<close> with \<open>\<bar>delta\<bar> > 0.01\<close>, and has
  \<open>percentChange = delta / before * 100\<close> when the before value is not 0 and 100 when it
  is. A key of either map has an entry exactly when the absolute difference of its values
  exceeds 0.01, no key has two entries, and the list is in descending order of \<open>\<bar>delta\<bar>\<close>.
\<close>

theorem calculateDeltas_spec:
  "(\<forall>d \<in> set (calculateDeltas before after).
       entityKey d \<in> fst ` set before \<union> fst ` set after
     \<and> beforeValue d = getOrZero before (entityKey d)
     \<and> afterValue d = getOrZero after (entityKey d)
     \<and> delta d = afterValue d - beforeValue d
     \<and> \<bar>delta d\<bar> > 0.01
     \<and> percentChange d = (if beforeValue d \<noteq> 0 then delta d / beforeValue d * 100 else 100))
   \<and> (\<forall>k \<in> fst ` set before \<union> fst ` set after.
         (\<exists>d \<in> set (calculateDeltas before after). entityKey d = k)
           \<longleftrightarrow> \<bar>getOrZero after k - getOrZero before k\<bar> > 0.01)
   \<and> distinct (map entityKey (calculateDeltas before after))
   \<and> sorted_wrt (\<lambda>x y. \<bar>delta x\<bar> \<ge> \<bar>delta y\<bar>) (calculateDeltas before after)"
proof (intro conjI ballI)
  let ?ks = "newSet (map fst before @ map fst after)"
  let ?ds = "concat (map (deltaFor before after) ?ks)"
  have res: "calculateDeltas before after = sort_key (\<lambda>x. - \<bar>delta x\<bar>) ?ds"
    by (simp add: calculateDeltas_def Let_def)
  have mem: "d \<in> set (calculateDeltas before after)
      \<longleftrightarrow> (\<exists>k \<in> fst ` set before \<union> fst ` set after. d \<in> set (deltaFor before after k))" for d
    by (auto simp: res set_newSet)
  fix d assume "d \<in> set (calculateDeltas before after)"
  then obtain k where k: "k \<in> fst ` set before \<union> fst ` set after"
    and d: "d \<in> set (deltaFor before after k)"
    using mem by blast
  from d have dk: "entityKey d = k" by (rule deltaFor_key)
  show "entityKey d \<in> fst ` set before \<union> fst ` set after"
    using k dk by simp
  show "beforeValue d = getOrZero before (entityKey d)"
    using d by (auto simp: deltaFor_def Let_def split: if_splits)
  show "afterValue d = getOrZero after (entityKey d)"
    using d by (auto simp: deltaFor_def Let_def split: if_splits)
  show "delta d = afterValue d - beforeValue d"
    using d by (auto simp: deltaFor_def Let_def split: if_splits)
  show "\<bar>delta d\<bar> > 0.01"
    using d by (auto simp: deltaFor_def Let_def split: if_splits)
  show "percentChange d = (if beforeValue d \<noteq> 0 then delta d / beforeValue d * 100 else 100)"
    using d by (auto simp: deltaFor_def Let_def split: if_splits)
next
  have res: "calculateDeltas before after
      = sort_key (\<lambda>x. - \<bar>delta x\<bar>) (concat (map (deltaFor before after) (newSet (map fst before @ map fst after))))"
    by (simp add: calculateDeltas_def Let_def)
  fix k assume k: "k \<in> fst ` set before \<union> fst ` set after"
  show "(\<exists>d \<in> set (calculateDeltas before after). entityKey d = k)
           \<longleftrightarrow> \<bar>getOrZero after k - getOrZero before k\<bar> > 0.01"
  proof
    assume "\<exists>d \<in> set (calculateDeltas before after). entityKey d = k"
    then obtain d k' where "d \<in> set (deltaFor before after k')" and "entityKey d = k"
      by (auto simp: res)
    moreover from this have "k' = k" by (auto dest: deltaFor_key)
    ultimately show "\<bar>getOrZero after k - getOrZero before k\<bar> > 0.01"
      by (auto simp: deltaFor_def Let_def split: if_splits)
  next
    assume big: "\<bar>getOrZero after k - getOrZero before k\<bar> > 0.01"
    let ?d = "\<lparr>entityKey = k, beforeValue = getOrZero before k, afterValue = getOrZero after k,
               delta = getOrZero after k - getOrZero before k,
               percentChange = (if getOrZero before k \<noteq> 0
                  then ((getOrZero after k - getOrZero before k) / getOrZero before k) * 100 else 100)\<rparr>"
    have "?d \<in> set (deltaFor before after k)"
      using big by (simp add: deltaFor_def Let_def)
    with k have "?d \<in> set (calculateDeltas before after)"
      unfolding set_calculateDeltas by blast
    then show "\<exists>d \<in> set (calculateDeltas before after). entityKey d = k"
      by (rule bexI [rotated]) simp
  qed
next
  show "distinct (map entityKey (calculateDeltas before after))"
  proof -
    have "distinct (map entityKey (concat (map (deltaFor before after)
            (newSet (map fst before @ map fst after)))))"
      by (rule distinct_deltaFor_keys) (rule distinct_newSet)
    then show ?thesis
      unfolding calculateDeltas_def Let_def
      by (metis distinct_map distinct_sort set_sort)
  qed
next
  have "sorted (map (\<lambda>x. - \<bar>delta x\<bar>) (calculateDeltas before after))"
    by (simp add: calculateDeltas_def Let_def)
  then show "sorted_wrt (\<lambda>x y. \<bar>delta x\<bar> \<ge> \<bar>delta y\<bar>) (calculateDeltas before after)"
    by (simp add: sorted_map)
qed

theorem calculateDeltas_spec_witness:
  "calculateDeltas [(''DEPARTMENT:D1'', 0.5), (''BUDGET:B1'', 0.2)]
                   [(''DEPARTMENT:D1'', 0.75), (''KPI:K1'', 0.4), (''BUDGET:B1'', 0.205)]
     = [\<lparr>entityKey = ''KPI:K1'', beforeValue = 0, afterValue = 0.4, delta = 0.4, percentChange = 100\<rparr>,
        \<lparr>entityKey = ''DEPARTMENT:D1'', beforeValue = 0.5, afterValue = 0.75, delta = 0.25,
          percentChange = 50\<rparr>]
   \<and> (\<exists>d \<in> set (calculateDeltas [(''DEPARTMENT:D1'', 0.5), (''BUDGET:B1'', 0.2)]
                   [(''DEPARTMENT:D1'', 0.75), (''KPI:K1'', 0.4), (''BUDGET:B1'', 0.205)]).
         entityKey d = ''KPI:K1'')"
  using calculateDeltas_spec [of "[(''DEPARTMENT:D1'', 0.5), (''BUDGET:B1'', 0.2)]"
      "[(''DEPARTMENT:D1'', 0.75), (''KPI:K1'', 0.4), (''BUDGET:B1'', 0.205)]"]
  by (simp add: calculateDeltas_def newSet_def deltaFor_def getOrZero_def Let_def)

section \<open>Invariants of the traversal\<close>

text \<open>
  A property of the run state that survives marking an edge key as visited and accepting an
  edge whose key was not visited survives the whole traversal.
\<close>

lemma propagateBFS_invariant:
  assumes mark: "\<And>s k. P s \<Longrightarrow> P (s\<lparr>visited := insert k (visited s)\<rparr>)"
    and acc: "\<And>s ct ci d e imp. P s \<Longrightarrow>
        visitedKeyOf (nodeKey ct ci) (nodeKey (targetType e) (targetId e)) \<notin> visited s \<Longrightarrow>
        P (acceptEdge E ct ci d e imp
             (s\<lparr>visited := insert (visitedKeyOf (nodeKey ct ci)
                   (nodeKey (targetType e) (targetId e))) (visited s)\<rparr>))"
    and start: "P st"
  shows "P (propagateBFS E currentType currentId currentImpact d st)"
  using assms
proof (induction E currentType currentId currentImpact d st rule: propagateBFS.induct)
  case (1 E currentType currentId currentImpact d st)
  note mark = "1.prems"(1) and acc = "1.prems"(2) and start = "1.prems"(3)
  show ?case
  proof (cases "graph E = None \<or> maxDepth E \<le> d \<or> currentImpact < impactThreshold E")
    case True
    then show ?thesis
      using start by (subst propagateBFS.simps) auto
  next
    case False
    then have run: "graph E \<noteq> None" "\<not> maxDepth E \<le> d" "\<not> currentImpact < impactThreshold E"
      by auto
    let ?body = "\<lambda>edge s.
             if edgeSkipped E edge then s
             else if visitedKeyOf (nodeKey currentType currentId)
                       (nodeKey (targetType edge) (targetId edge)) \<in> visited s then s
             else if propagatedImpactOf currentImpact edge < impactThreshold E
               then s\<lparr>visited := insert (visitedKeyOf (nodeKey currentType currentId)
                       (nodeKey (targetType edge) (targetId edge))) (visited s)\<rparr>
             else propagateBFS E (targetType edge) (targetId edge)
                    (propagatedImpactOf currentImpact edge) (d + 1)
                    (acceptEdge E currentType currentId d edge (propagatedImpactOf currentImpact edge)
                       (s\<lparr>visited := insert (visitedKeyOf (nodeKey currentType currentId)
                          (nodeKey (targetType edge) (targetId edge))) (visited s)\<rparr>))"
    let ?es = "outgoingEdges (the (graph E)) (nodeKey currentType currentId)"
    have unfold: "propagateBFS E currentType currentId currentImpact d st = fold ?body ?es st"
      by (subst propagateBFS.simps) (simp only: run if_False)
    have "P (fold ?body ?es st)"
    proof (rule fold_invariant [where Q = "\<lambda>e. e \<in> set ?es" and P = P])
      show "\<And>x. x \<in> set ?es \<Longrightarrow> x \<in> set ?es" .
      show "P st" by (rule start)
      fix e s assume e: "e \<in> set ?es" and s: "P s"
      let ?k = "visitedKeyOf (nodeKey currentType currentId) (nodeKey (targetType e) (targetId e))"
      let ?imp = "propagatedImpactOf currentImpact e"
      consider (skip) "edgeSkipped E e \<or> ?k \<in> visited s"
        | (low) "\<not> edgeSkipped E e" "?k \<notin> visited s" "?imp < impactThreshold E"
        | (go) "\<not> edgeSkipped E e" "?k \<notin> visited s" "\<not> ?imp < impactThreshold E"
        by blast
      then show "P (?body e s)"
      proof cases
        case skip
        then show ?thesis using s by auto
      next
        case low
        then show ?thesis using mark [OF s] by simp
      next
        case go
        have accepted: "P (acceptEdge E currentType currentId d e ?imp (s\<lparr>visited := insert ?k (visited s)\<rparr>))"
          using s go(2) by (rule acc)
        note ih = "1.IH" [OF run e go]
        have "P (propagateBFS E (targetType e) (targetId e) ?imp (d + 1)
              (acceptEdge E currentType currentId d e ?imp (s\<lparr>visited := insert ?k (visited s)\<rparr>)))"
          apply (rule ih)
          subgoal for s k by (rule mark)
          subgoal for s ct ci d e imp by (rule acc)
          subgoal by fact
          done
        then show ?thesis using go by simp
      qed
    qed
    then show ?thesis by (simp only: unfold)
  qed
qed

section \<open>Cycle safety\<close>

lemma edges_acceptEdge:
  "edges (acceptEdge E ct ci d e imp s)
     = edges s @ [\<lparr>pSourceType = ct, pSourceId = ci, pTargetType = targetType e,
                    pTargetId = targetId e, pWeight = impactWeight e, pImpactType = impactType e\<rparr>]"
  by (simp add: acceptEdge_def Let_def split: option.splits)

lemma visited_acceptEdge: "visited (acceptEdge E ct ci d e imp s) = visited s"
  by (simp add: acceptEdge_def Let_def split: option.splits)

lemma edge_keys_visited:
  assumes "distinct (map pathVisitedKey (edges st))" and "pathVisitedKey ` set (edges st) \<subseteq> visited st"
  shows "distinct (map pathVisitedKey (edges (propagateBFS E ct ci imp d st)))
       \<and> pathVisitedKey ` set (edges (propagateBFS E ct ci imp d st))
            \<subseteq> visited (propagateBFS E ct ci imp d st)"
proof (rule propagateBFS_invariant
    [where P = "\<lambda>s. distinct (map pathVisitedKey (edges s)) \<and> pathVisitedKey ` set (edges s) \<subseteq> visited s"])
  show "distinct (map pathVisitedKey (edges st)) \<and> pathVisitedKey ` set (edges st) \<subseteq> visited st"
    using assms by simp
next
  fix s :: Traversal and k
  assume "distinct (map pathVisitedKey (edges s)) \<and> pathVisitedKey ` set (edges s) \<subseteq> visited s"
  then show "distinct (map pathVisitedKey (edges (s\<lparr>visited := insert k (visited s)\<rparr>)))
      \<and> pathVisitedKey ` set (edges (s\<lparr>visited := insert k (visited s)\<rparr>))
          \<subseteq> visited (s\<lparr>visited := insert k (visited s)\<rparr>)"
    by auto
next
  fix s :: Traversal and ct ci d and e :: ImpactEdge and imp
  let ?k = "visitedKeyOf (nodeKey ct ci) (nodeKey (targetType e) (targetId e))"
  assume inv: "distinct (map pathVisitedKey (edges s)) \<and> pathVisitedKey ` set (edges s) \<subseteq> visited s"
    and fresh: "?k \<notin> visited s"
  have new: "?k \<notin> pathVisitedKey ` set (edges s)"
    using inv fresh by auto
  show "distinct (map pathVisitedKey (edges (acceptEdge E ct ci d e imp (s\<lparr>visited := insert ?k (visited s)\<rparr>))))
      \<and> pathVisitedKey ` set (edges (acceptEdge E ct ci d e imp (s\<lparr>visited := insert ?k (visited s)\<rparr>)))
          \<subseteq> visited (acceptEdge E ct ci d e imp (s\<lparr>visited := insert ?k (visited s)\<rparr>))"
    using inv new
    by (auto simp: edges_acceptEdge visited_acceptEdge pathVisitedKey_def pathSourceKey_def
        pathTargetKey_def)
qed

lemma distinct_map_pair:
  "distinct (map (\<lambda>x. h (f x) (g x)) xs) \<Longrightarrow> distinct (map (\<lambda>x. (f x, g x)) xs)"
  by (induction xs) auto

lemma resEdges_propagate:
  "resEdges (propagate store E0 config)
     = edges (propagateBFS (ensureGraph store E0) (cfgSourceType config) (cfgSourceId config)
         (initialImpactOf config) 0
         \<lparr>visited = {},
          nodes = AList.update (nodeKey (cfgSourceType config) (cfgSourceId config))
                    (sourceNode (ensureGraph store E0) (cfgSourceType config) (cfgSourceId config)
                       (initialImpactOf config)) [],
          edges = []\<rparr>)"
  by (simp add: propagate_def Let_def)

text \<open>
  C5. Cycle safety. \<^verbatim>\<open>propagateBFS\<close> is a total function: every call descends one level
  towards the depth cap, so the traversal terminates on every graph, cyclic or not. In the
  result of every propagation, no ordered pair of node keys \<open>(u, v)\<close> occurs twice among
  the accepted edges. In the two-node cycle (A to B and B to A, weight 0.9, Direct; initial
  impact 1.0, threshold 0.01, depth cap 10), whatever the types of A and B, the result has
  exactly two nodes, and two edges.
\<close>

theorem result_edges_distinct_pairs:
  "distinct (map (\<lambda>p. (pathSourceKey p, pathTargetKey p)) (resEdges (propagate store E0 config)))
   \<and> length (resNodes (propagate
        [activeEdge ta ''A'' tb ''B'' 0.9 Direct, activeEdge tb ''B'' ta ''A'' 0.9 Direct]
        (newEngine noNames ''T1'' (Some 10) (Some 0.01) None) (sourceConfig ta ''A'' (Some 1.0)))) = 2
   \<and> length (resEdges (propagate
        [activeEdge ta ''A'' tb ''B'' 0.9 Direct, activeEdge tb ''B'' ta ''A'' 0.9 Direct]
        (newEngine noNames ''T1'' (Some 10) (Some 0.01) None) (sourceConfig ta ''A'' (Some 1.0)))) = 2"
proof -
  have "distinct (map pathVisitedKey (resEdges (propagate store E0 config)))"
    unfolding resEdges_propagate
    by (rule edge_keys_visited [THEN conjunct1]) simp_all
  then have "distinct (map (\<lambda>p. visitedKeyOf (pathSourceKey p) (pathTargetKey p))
      (resEdges (propagate store E0 config)))"
    by (simp add: pathVisitedKey_def [abs_def])
  then have general: "distinct (map (\<lambda>p. (pathSourceKey p, pathTargetKey p))
      (resEdges (propagate store E0 config)))"
    by (rule distinct_map_pair)
  have scenario: "length (resNodes (propagate
        [activeEdge ta ''A'' tb ''B'' 0.9 Direct, activeEdge tb ''B'' ta ''A'' 0.9 Direct]
        (newEngine noNames ''T1'' (Some 10) (Some 0.01) None) (sourceConfig ta ''A'' (Some 1.0)))) = 2
   \<and> length (resEdges (propagate
        [activeEdge ta ''A'' tb ''B'' 0.9 Direct, activeEdge tb ''B'' ta ''A'' 0.9 Direct]
        (newEngine noNames ''T1'' (Some 10) (Some 0.01) None) (sourceConfig ta ''A'' (Some 1.0)))) = 2"
    by (cases ta; cases tb)
      (simp_all add: scenario_defs)
  from general scenario show ?thesis by blast
qed

section \<open>The source node of a result\<close>

lemma nodes_acceptEdge_other:
  "k \<noteq> nodeKey (targetType e) (targetId e) \<Longrightarrow>
   map_of (nodes (acceptEdge E ct ci d e imp s)) k = map_of (nodes s) k"
  by (simp add: acceptEdge_def Let_def update_conv' split: option.splits)

lemma nodes_acceptEdge_existing:
  "map_of (nodes s) (nodeKey (targetType e) (targetId e)) = Some n \<Longrightarrow>
   \<exists>n'. map_of (nodes (acceptEdge E ct ci d e imp s)) (nodeKey (targetType e) (targetId e)) = Some n'
      \<and> depth n' = depth n \<and> impactScore n' = max (impactScore n) imp"
  by (simp add: acceptEdge_def Let_def update_conv')

lemma nodes_markVisited [simp]: "nodes (s\<lparr>visited := v\<rparr>) = nodes s"
  by simp

lemma fold_fst:
  assumes "\<And>e sl. e \<in> set es \<Longrightarrow> fst (g e sl) = f e (fst sl)"
  shows "fst (fold g es sl) = fold f es (fst sl)"
  using assms by (induction es arbitrary: sl) simp_all

lemma propagateBFSLog_stop:
  assumes "graph E = None \<or> maxDepth E \<le> d \<or> imp < impactThreshold E"
  shows "propagateBFSLog E ct ci imp d sl = sl"
  using assms by (subst propagateBFSLog.simps) auto

lemma propagateBFSLog_run:
  assumes "graph E \<noteq> None" "\<not> maxDepth E \<le> d" "\<not> imp < impactThreshold E"
  shows "propagateBFSLog E ct ci imp d sl =
     fold (\<lambda>edge sl.
             if edgeSkipped E edge then sl
             else if visitedKeyOf (nodeKey ct ci)
                       (nodeKey (targetType edge) (targetId edge)) \<in> visited (fst sl) then sl
             else if propagatedImpactOf imp edge < impactThreshold E
               then ((fst sl)\<lparr>visited := insert (visitedKeyOf (nodeKey ct ci)
                       (nodeKey (targetType edge) (targetId edge))) (visited (fst sl))\<rparr>, snd sl)
             else propagateBFSLog E (targetType edge) (targetId edge)
                    (propagatedImpactOf imp edge) (d + 1)
                    (acceptEdge E ct ci d edge (propagatedImpactOf imp edge)
                       ((fst sl)\<lparr>visited := insert (visitedKeyOf (nodeKey ct ci)
                          (nodeKey (targetType edge) (targetId edge))) (visited (fst sl))\<rparr>),
                     snd sl @ [propagatedImpactOf imp edge]))
           (outgoingEdges (the (graph E)) (nodeKey ct ci)) sl"
  by (subst propagateBFSLog.simps) (simp only: assms if_False)

lemma propagateBFS_unfold_run:
  assumes "graph E \<noteq> None" "\<not> maxDepth E \<le> d" "\<not> imp < impactThreshold E"
  shows "propagateBFS E ct ci imp d st =
     fold (\<lambda>edge s.
             if edgeSkipped E edge then s
             else if visitedKeyOf (nodeKey ct ci)
                       (nodeKey (targetType edge) (targetId edge)) \<in> visited s then s
             else if propagatedImpactOf imp edge < impactThreshold E
               then s\<lparr>visited := insert (visitedKeyOf (nodeKey ct ci)
                       (nodeKey (targetType edge) (targetId edge))) (visited s)\<rparr>
             else propagateBFS E (targetType edge) (targetId edge)
                    (propagatedImpactOf imp edge) (d + 1)
                    (acceptEdge E ct ci d edge (propagatedImpactOf imp edge)
                       (s\<lparr>visited := insert (visitedKeyOf (nodeKey ct ci)
                          (nodeKey (targetType edge) (targetId edge))) (visited s)\<rparr>)))
           (outgoingEdges (the (graph E)) (nodeKey ct ci)) st"
  by (subst propagateBFS.simps) (simp only: assms if_False)

text \<open>The log does not change the run.\<close>

lemma fst_propagateBFSLog:
  "fst (propagateBFSLog E ct ci imp d sl) = propagateBFS E ct ci imp d (fst sl)"
proof (induction E ct ci imp d sl rule: propagateBFSLog.induct)
  case (1 E ct ci imp d sl)
  show ?case
  proof (cases "graph E = None \<or> maxDepth E \<le> d \<or> imp < impactThreshold E")
    case True
    then show ?thesis
      by (simp add: propagateBFSLog_stop) (subst propagateBFS.simps, auto)
  next
    case False
    then have run: "graph E \<noteq> None" "\<not> maxDepth E \<le> d" "\<not> imp < impactThreshold E"
      by auto
    show ?thesis
      unfolding propagateBFSLog_run [OF run] propagateBFS_unfold_run [OF run]
    proof (rule fold_fst)
      fix e and sl :: "Traversal \<times> real list"
      assume e: "e \<in> set (outgoingEdges (the (graph E)) (nodeKey ct ci))"
      let ?k = "visitedKeyOf (nodeKey ct ci) (nodeKey (targetType e) (targetId e))"
      let ?q = "propagatedImpactOf imp e"
      consider (skip) "edgeSkipped E e \<or> ?k \<in> visited (fst sl)"
        | (low) "\<not> edgeSkipped E e" "?k \<notin> visited (fst sl)" "?q < impactThreshold E"
        | (go) "\<not> edgeSkipped E e" "?k \<notin> visited (fst sl)" "\<not> ?q < impactThreshold E"
        by blast
      then show "fst (if edgeSkipped E e then sl
             else if ?k \<in> visited (fst sl) then sl
             else if ?q < impactThreshold E
               then ((fst sl)\<lparr>visited := insert ?k (visited (fst sl))\<rparr>, snd sl)
             else propagateBFSLog E (targetType e) (targetId e) ?q (d + 1)
                    (acceptEdge E ct ci d e ?q ((fst sl)\<lparr>visited := insert ?k (visited (fst sl))\<rparr>),
                     snd sl @ [?q]))
         = (if edgeSkipped E e then fst sl
             else if ?k \<in> visited (fst sl) then fst sl
             else if ?q < impactThreshold E
               then (fst sl)\<lparr>visited := insert ?k (visited (fst sl))\<rparr>
             else propagateBFS E (targetType e) (targetId e) ?q (d + 1)
                    (acceptEdge E ct ci d e ?q ((fst sl)\<lparr>visited := insert ?k (visited (fst sl))\<rparr>)))"
      proof cases
        case skip
        then show ?thesis by auto
      next
        case low
        then show ?thesis by simp
      next
        case go
        show ?thesis
          using go "1.IH" [OF run e go] by simp
      qed
    qed
  qed
qed

text \<open>Invariants of the run with its log.\<close>

lemma propagateBFSLog_invariant:
  assumes mark: "\<And>s l k. P (s, l) \<Longrightarrow> P (s\<lparr>visited := insert k (visited s)\<rparr>, l)"
    and acc: "\<And>s l ct ci d e imp. P (s, l) \<Longrightarrow>
        P (acceptEdge E ct ci d e imp
             (s\<lparr>visited := insert (visitedKeyOf (nodeKey ct ci)
                   (nodeKey (targetType e) (targetId e))) (visited s)\<rparr>), l @ [imp])"
    and start: "P sl"
  shows "P (propagateBFSLog E currentType currentId currentImpact d sl)"
  using assms
proof (induction E currentType currentId currentImpact d sl rule: propagateBFSLog.induct)
  case (1 E ct ci imp d sl)
  note mark = "1.prems"(1) and acc = "1.prems"(2) and start = "1.prems"(3)
  show ?case
  proof (cases "graph E = None \<or> maxDepth E \<le> d \<or> imp < impactThreshold E")
    case True
    then show ?thesis using start by (simp add: propagateBFSLog_stop)
  next
    case False
    then have run: "graph E \<noteq> None" "\<not> maxDepth E \<le> d" "\<not> imp < impactThreshold E"
      by auto
    let ?es = "outgoingEdges (the (graph E)) (nodeKey ct ci)"
    show ?thesis
      unfolding propagateBFSLog_run [OF run]
    proof (rule fold_invariant [where Q = "\<lambda>e. e \<in> set ?es" and P = P])
      show "\<And>x. x \<in> set ?es \<Longrightarrow> x \<in> set ?es" .
      show "P sl" by (rule start)
      fix e and sl :: "Traversal \<times> real list"
      assume e: "e \<in> set ?es" and s: "P sl"
      let ?k = "visitedKeyOf (nodeKey ct ci) (nodeKey (targetType e) (targetId e))"
      let ?q = "propagatedImpactOf imp e"
      let ?s1 = "(fst sl)\<lparr>visited := insert ?k (visited (fst sl))\<rparr>"
      have s': "P (fst sl, snd sl)" using s by simp
      consider (skip) "edgeSkipped E e \<or> ?k \<in> visited (fst sl)"
        | (low) "\<not> edgeSkipped E e" "?k \<notin> visited (fst sl)" "?q < impactThreshold E"
        | (go) "\<not> edgeSkipped E e" "?k \<notin> visited (fst sl)" "\<not> ?q < impactThreshold E"
        by blast
      then show "P (if edgeSkipped E e then sl
             else if ?k \<in> visited (fst sl) then sl
             else if ?q < impactThreshold E then (?s1, snd sl)
             else propagateBFSLog E (targetType e) (targetId e) ?q (d + 1)
                    (acceptEdge E ct ci d e ?q ?s1, snd sl @ [?q]))"
      proof cases
        case skip
        then show ?thesis using s by auto
      next
        case low
        then show ?thesis using mark [OF s'] by simp
      next
        case go
        have accepted: "P (acceptEdge E ct ci d e ?q ?s1, snd sl @ [?q])"
          using s' by (rule acc)
        note ih = "1.IH" [OF run e go]
        have "P (propagateBFSLog E (targetType e) (targetId e) ?q (d + 1)
              (acceptEdge E ct ci d e ?q ?s1, snd sl @ [?q]))"
          apply (rule ih)
          subgoal for s l k by (rule mark)
          subgoal for s l ct ci d e imp by (rule acc)
          subgoal by (rule accepted)
          done
        then show ?thesis using go by simp
      qed
    qed
  qed
qed

lemma carriedInto_snoc:
  "length es = length qs \<Longrightarrow>
   carriedInto k0 (es @ [p]) (qs @ [q])
     = carriedInto k0 es qs @ (if pathTargetKey p = k0 then [q] else [])"
  by (simp add: carriedInto_def)

lemma fold_max_snoc: "fold max (xs @ [q]) (x :: real) = max (fold max xs x) q"
  by (simp add: max.commute)

lemma fold_max_Max: "fold max xs (x :: real) = Max (set (x # xs))"
  by (simp only: Max.set_eq_fold)

lemma sourceScoreInv_propagateBFSLog:
  assumes "sourceScoreInv k0 x sl"
  shows "sourceScoreInv k0 x (propagateBFSLog E ct ci imp d sl)"
proof (rule propagateBFSLog_invariant [where P = "sourceScoreInv k0 x"])
  show "sourceScoreInv k0 x sl" by (rule assms)
next
  fix s :: Traversal and l :: "real list" and k
  assume "sourceScoreInv k0 x (s, l)"
  then show "sourceScoreInv k0 x (s\<lparr>visited := insert k (visited s)\<rparr>, l)"
    by (simp add: sourceScoreInv_def)
next
  fix s :: Traversal and l :: "real list" and ct ci d and e :: ImpactEdge and imp
  let ?s1 = "s\<lparr>visited := insert (visitedKeyOf (nodeKey ct ci)
      (nodeKey (targetType e) (targetId e))) (visited s)\<rparr>"
  let ?s2 = "acceptEdge E ct ci d e imp ?s1"
  let ?p = "\<lparr>pSourceType = ct, pSourceId = ci, pTargetType = targetType e,
      pTargetId = targetId e, pWeight = impactWeight e, pImpactType = impactType e\<rparr>"
  assume "sourceScoreInv k0 x (s, l)"
  then obtain n where len: "length l = length (edges s)"
    and n: "map_of (nodes s) k0 = Some n" "depth n = 0"
      "impactScore n = fold max (carriedInto k0 (edges s) l) x"
    by (auto simp: sourceScoreInv_def)
  have ed: "edges ?s2 = edges s @ [?p]"
    by (simp add: edges_acceptEdge)
  have tk: "pathTargetKey ?p = nodeKey (targetType e) (targetId e)"
    by (simp add: pathTargetKey_def)
  have car: "carriedInto k0 (edges ?s2) (l @ [imp])
      = carriedInto k0 (edges s) l @ (if nodeKey (targetType e) (targetId e) = k0 then [imp] else [])"
    using len by (simp only: ed carriedInto_snoc tk)
  have len2: "length (l @ [imp]) = length (edges ?s2)"
    using len by (simp add: ed)
  show "sourceScoreInv k0 x (?s2, l @ [imp])"
  proof (cases "k0 = nodeKey (targetType e) (targetId e)")
    case True
    from n(1) True have "map_of (nodes ?s1) (nodeKey (targetType e) (targetId e)) = Some n"
      by simp
    from nodes_acceptEdge_existing [OF this, of E ct ci d imp]
    obtain n' where n': "map_of (nodes ?s2) k0 = Some n'" "depth n' = depth n"
      "impactScore n' = max (impactScore n) imp"
      using True by auto
    have "impactScore n' = fold max (carriedInto k0 (edges ?s2) (l @ [imp])) x"
    proof -
      have "carriedInto k0 (edges ?s2) (l @ [imp]) = carriedInto k0 (edges s) l @ [imp]"
        using True car by simp
      then show ?thesis
        by (simp only: n'(3) n(3) fold_max_snoc)
    qed
    then show ?thesis
      unfolding sourceScoreInv_def using len2 n' n(2) by simp
  next
    case False
    then have "map_of (nodes ?s2) k0 = Some n"
      using n(1) by (simp add: nodes_acceptEdge_other)
    moreover have "impactScore n = fold max (carriedInto k0 (edges ?s2) (l @ [imp])) x"
      using False n(3) by (simp add: car)
    ultimately show ?thesis
      unfolding sourceScoreInv_def using len2 n(2) by simp
  qed
qed

lemma propagate_results:
  "resNodes (propagate store E0 config)
     = nodes (propagateBFS (ensureGraph store E0) (cfgSourceType config) (cfgSourceId config)
         (initialImpactOf config) 0
         \<lparr>visited = {},
          nodes = AList.update (nodeKey (cfgSourceType config) (cfgSourceId config))
                    (sourceNode (ensureGraph store E0) (cfgSourceType config) (cfgSourceId config)
                       (initialImpactOf config)) [],
          edges = []\<rparr>)"
  "totalAffected (propagate store E0 config) = int (length (resNodes (propagate store E0 config))) - 1"
  by (simp_all add: propagate_def Let_def)

lemma propagate_source_score:
  "length (carriedImpacts store E0 config) = length (resEdges (propagate store E0 config))
   \<and> (\<exists>n. map_of (resNodes (propagate store E0 config))
            (nodeKey (cfgSourceType config) (cfgSourceId config)) = Some n
        \<and> depth n = 0
        \<and> impactScore n = Max (set (initialImpactOf config
             # carriedInto (nodeKey (cfgSourceType config) (cfgSourceId config))
                 (resEdges (propagate store E0 config)) (carriedImpacts store E0 config))))"
proof -
  let ?E = "ensureGraph store E0"
  let ?key = "nodeKey (cfgSourceType config) (cfgSourceId config)"
  let ?x = "initialImpactOf config"
  let ?start = "\<lparr>visited = {},
          nodes = AList.update ?key (sourceNode ?E (cfgSourceType config) (cfgSourceId config) ?x) [],
          edges = []\<rparr>"
  let ?final = "propagateBFSLog ?E (cfgSourceType config) (cfgSourceId config) ?x 0 (?start, [])"
  have run: "fst ?final = propagateBFS ?E (cfgSourceType config) (cfgSourceId config) ?x 0 ?start"
    by (simp add: fst_propagateBFSLog)
  have res: "resNodes (propagate store E0 config) = nodes (fst ?final)"
    "resEdges (propagate store E0 config) = edges (fst ?final)"
    "carriedImpacts store E0 config = snd ?final"
    by (simp_all only: run propagate_results(1) resEdges_propagate carriedImpacts_def)
  have "sourceScoreInv ?key ?x (?start, [])"
    by (simp add: sourceScoreInv_def sourceNode_def carriedInto_def)
  then have "sourceScoreInv ?key ?x ?final"
    by (rule sourceScoreInv_propagateBFSLog)
  then show ?thesis
    unfolding sourceScoreInv_def res fold_max_Max by simp
qed

lemma propagateBFS_no_survivor:
  assumes "\<forall>e \<in> set (outgoingEdges (the (graph E)) (nodeKey ct ci)).
             edgeSkipped E e \<or> propagatedImpactOf imp e < impactThreshold E"
  shows "nodes (propagateBFS E ct ci imp d st) = nodes st
       \<and> edges (propagateBFS E ct ci imp d st) = edges st"
proof (cases "graph E = None \<or> maxDepth E \<le> d \<or> imp < impactThreshold E")
  case True
  then show ?thesis by (subst (1 2) propagateBFS.simps) auto
next
  case False
  then have run: "graph E \<noteq> None" "\<not> maxDepth E \<le> d" "\<not> imp < impactThreshold E"
    by auto
  show ?thesis
    unfolding propagateBFS_unfold_run [OF run]
  proof (rule fold_invariant [where Q = "\<lambda>e. edgeSkipped E e \<or> propagatedImpactOf imp e < impactThreshold E"
        and P = "\<lambda>s. nodes s = nodes st \<and> edges s = edges st"])
    show "\<And>e. e \<in> set (outgoingEdges (the (graph E)) (nodeKey ct ci))
        \<Longrightarrow> edgeSkipped E e \<or> propagatedImpactOf imp e < impactThreshold E"
      using assms by blast
    show "nodes st = nodes st \<and> edges st = edges st" by simp
    fix e and s :: Traversal
    assume "edgeSkipped E e \<or> propagatedImpactOf imp e < impactThreshold E"
      and "nodes s = nodes st \<and> edges s = edges st"
    then show "nodes (if edgeSkipped E e then s
             else if visitedKeyOf (nodeKey ct ci)
                       (nodeKey (targetType e) (targetId e)) \<in> visited s then s
             else if propagatedImpactOf imp e < impactThreshold E
               then s\<lparr>visited := insert (visitedKeyOf (nodeKey ct ci)
                       (nodeKey (targetType e) (targetId e))) (visited s)\<rparr>
             else propagateBFS E (targetType e) (targetId e)
                    (propagatedImpactOf imp e) (d + 1)
                    (acceptEdge E ct ci d e (propagatedImpactOf imp e)
                       (s\<lparr>visited := insert (visitedKeyOf (nodeKey ct ci)
                          (nodeKey (targetType e) (targetId e))) (visited s)\<rparr>))) = nodes st
        \<and> edges (if edgeSkipped E e then s
             else if visitedKeyOf (nodeKey ct ci)
                       (nodeKey (targetType e) (targetId e)) \<in> visited s then s
             else if propagatedImpactOf imp e < impactThreshold E
               then s\<lparr>visited := insert (visitedKeyOf (nodeKey ct ci)
                       (nodeKey (targetType e) (targetId e))) (visited s)\<rparr>
             else propagateBFS E (targetType e) (targetId e)
                    (propagatedImpactOf imp e) (d + 1)
                    (acceptEdge E ct ci d e (propagatedImpactOf imp e)
                       (s\<lparr>visited := insert (visitedKeyOf (nodeKey ct ci)
                          (nodeKey (targetType e) (targetId e))) (visited s)\<rparr>))) = edges st"
      by auto
  qed
qed

lemmas carried_defs = carriedImpacts_def carriedInto_def propagateBFSLog.simps pathTargetKey_def

text \<open>
  C4, as stated, fails on a cycle through the source: with the edges R1 to D1 and D1 back to
  R1 (weight 1.0, Direct) and initial impact 1.0, the edge into the regulation carries
  \<open>1.0 * 1.0 * 1.0 * 1.2\<close>, and the max update raises the score of the source to 1.2.
\<close>

theorem source_score_raised_by_cycle:
  "map_option impactScore (map_of (resNodes (propagate
      [activeEdge REGULATION ''R1'' DEPARTMENT ''D1'' 1.0 Direct,
       activeEdge DEPARTMENT ''D1'' REGULATION ''R1'' 1.0 Direct]
      (newEngine noNames ''T1'' None None None) (sourceConfig REGULATION ''R1'' (Some 1.0))))
     ''REGULATION:R1'') = Some 1.2
   \<and> map_option impactScore (map_of (resNodes (propagate
      [activeEdge REGULATION ''R1'' DEPARTMENT ''D1'' 1.0 Direct,
       activeEdge DEPARTMENT ''D1'' REGULATION ''R1'' 1.0 Direct]
      (newEngine noNames ''T1'' None None None) (sourceConfig REGULATION ''R1'' (Some 1.0))))
     ''REGULATION:R1'')
     \<noteq> Some (initialImpactOf (sourceConfig REGULATION ''R1'' (Some 1.0)))"
  by (simp add: scenario_defs)

text \<open>
  C4, amended. In the result of every propagation the source node is in the node map at
  depth 0, and its score is the largest of the initial impact and the impacts carried by
  the accepted edges that lead into the source: at least the initial impact, and exactly
  the initial impact unless such an edge carried more (on a cycle between departments
  seeded 0.5 the source keeps 0.5). When no outgoing edge of the source survives (each is
  skipped by the edge rules or propagates less than the threshold), the result has
  \<open>totalAffected = 0\<close>, an empty edge list and the source as its only node.
\<close>

theorem source_node_in_result:
  "(\<exists>n. map_of (resNodes (propagate store E0 config))
            (nodeKey (cfgSourceType config) (cfgSourceId config)) = Some n
        \<and> depth n = 0
        \<and> impactScore n = Max (set (initialImpactOf config
             # carriedInto (nodeKey (cfgSourceType config) (cfgSourceId config))
                 (resEdges (propagate store E0 config)) (carriedImpacts store E0 config)))
        \<and> impactScore n \<ge> initialImpactOf config
        \<and> ((\<forall>q \<in> set (carriedInto (nodeKey (cfgSourceType config) (cfgSourceId config))
                 (resEdges (propagate store E0 config)) (carriedImpacts store E0 config)).
               q \<le> initialImpactOf config)
             \<longrightarrow> impactScore n = initialImpactOf config))
   \<and> length (carriedImpacts store E0 config) = length (resEdges (propagate store E0 config))
   \<and> ((\<forall>e \<in> set (outgoingEdges (the (graph (ensureGraph store E0)))
                    (nodeKey (cfgSourceType config) (cfgSourceId config))).
          edgeSkipped (ensureGraph store E0) e
          \<or> propagatedImpactOf (initialImpactOf config) e < impactThreshold (ensureGraph store E0))
        \<longrightarrow> totalAffected (propagate store E0 config) = 0
          \<and> resEdges (propagate store E0 config) = []
          \<and> map fst (resNodes (propagate store E0 config))
              = [nodeKey (cfgSourceType config) (cfgSourceId config)])"
proof (intro conjI impI)
  let ?E = "ensureGraph store E0"
  let ?key = "nodeKey (cfgSourceType config) (cfgSourceId config)"
  let ?x = "initialImpactOf config"
  let ?into = "carriedInto ?key (resEdges (propagate store E0 config)) (carriedImpacts store E0 config)"
  let ?start = "\<lparr>visited = {},
          nodes = AList.update ?key (sourceNode ?E (cfgSourceType config) (cfgSourceId config) ?x) [],
          edges = []\<rparr>"
  let ?final = "propagateBFS ?E (cfgSourceType config) (cfgSourceId config) ?x 0 ?start"
  from propagate_source_score [of store E0 config]
  obtain n where n: "map_of (resNodes (propagate store E0 config)) ?key = Some n" "depth n = 0"
    "impactScore n = Max (set (?x # ?into))"
    and len: "length (carriedImpacts store E0 config) = length (resEdges (propagate store E0 config))"
    by blast
  have ge: "impactScore n \<ge> ?x"
    unfolding n(3) by simp
  have eq: "impactScore n = ?x" if "\<forall>q \<in> set ?into. q \<le> ?x"
  proof -
    have "impactScore n \<le> ?x"
      unfolding n(3) using that by (subst Max_le_iff) auto
    with ge show ?thesis by linarith
  qed
  show "\<exists>n. map_of (resNodes (propagate store E0 config)) ?key = Some n
        \<and> depth n = 0
        \<and> impactScore n = Max (set (?x # ?into))
        \<and> impactScore n \<ge> ?x
        \<and> ((\<forall>q \<in> set ?into. q \<le> ?x) \<longrightarrow> impactScore n = ?x)"
    using n ge eq by blast
  show "length (carriedImpacts store E0 config) = length (resEdges (propagate store E0 config))"
    by (rule len)
  assume none: "\<forall>e \<in> set (outgoingEdges (the (graph ?E)) ?key).
          edgeSkipped ?E e \<or> propagatedImpactOf ?x e < impactThreshold ?E"
  have same: "nodes ?final = nodes ?start \<and> edges ?final = edges ?start"
    using none by (rule propagateBFS_no_survivor)
  show "resEdges (propagate store E0 config) = []"
    using same by (simp add: resEdges_propagate)
  show nodes1: "map fst (resNodes (propagate store E0 config)) = [?key]"
    using same by (simp add: propagate_results(1))
  have "length (map fst (resNodes (propagate store E0 config))) = 1"
    by (simp only: nodes1 list.size)
  then show "totalAffected (propagate store E0 config) = 0"
    by (simp add: propagate_results(2))
qed

theorem source_node_in_result_witness:
  "carriedInto ''DEPARTMENT:A''
      (resEdges (propagate
        [activeEdge DEPARTMENT ''A'' DEPARTMENT ''B'' 0.9 Direct,
         activeEdge DEPARTMENT ''B'' DEPARTMENT ''A'' 0.9 Direct]
        (newEngine noNames ''T1'' None None None) (sourceConfig DEPARTMENT ''A'' (Some 0.5))))
      (carriedImpacts
        [activeEdge DEPARTMENT ''A'' DEPARTMENT ''B'' 0.9 Direct,
         activeEdge DEPARTMENT ''B'' DEPARTMENT ''A'' 0.9 Direct]
        (newEngine noNames ''T1'' None None None) (sourceConfig DEPARTMENT ''A'' (Some 0.5)))
     = [0.405]
   \<and> map_option impactScore (map_of (resNodes (propagate
        [activeEdge DEPARTMENT ''A'' DEPARTMENT ''B'' 0.9 Direct,
         activeEdge DEPARTMENT ''B'' DEPARTMENT ''A'' 0.9 Direct]
        (newEngine noNames ''T1'' None None None) (sourceConfig DEPARTMENT ''A'' (Some 0.5))))
      ''DEPARTMENT:A'') = Some 0.5
   \<and> totalAffected (propagate
        [activeEdge REGULATION ''R1'' DEPARTMENT ''D1'' 0.001 Direct]
        (newEngine noNames ''T1'' None None None) (sourceConfig REGULATION ''R1'' (Some 1.0))) = 0
   \<and> resEdges (propagate
        [activeEdge REGULATION ''R1'' DEPARTMENT ''D1'' 0.001 Direct]
        (newEngine noNames ''T1'' None None None) (sourceConfig REGULATION ''R1'' (Some 1.0))) = []"
  using source_node_in_result [where store = "[activeEdge DEPARTMENT ''A'' DEPARTMENT ''B'' 0.9 Direct,
         activeEdge DEPARTMENT ''B'' DEPARTMENT ''A'' 0.9 Direct]"
      and config = "sourceConfig DEPARTMENT ''A'' (Some 0.5)"
      and ?E0.0 = "newEngine noNames ''T1'' None None None"]
    source_node_in_result [where store = "[activeEdge REGULATION ''R1'' DEPARTMENT ''D1'' 0.001 Direct]"
      and config = "sourceConfig REGULATION ''R1'' (Some 1.0)"
      and ?E0.0 = "newEngine noNames ''T1'' None None None"]
  by (simp add: scenario_defs carried_defs)

section \<open>Order of the accepted edges\<close>

text \<open>
  C3. The claim is a breadth-first order of the edge list: the edges accepted at depth \<open>k\<close>
  before those accepted at depth \<open>k + 1\<close>. \<^verbatim>\<open>propagateBFS\<close>, documented as BFS-based, calls
  itself inside the loop over the outgoing edges, so the order is depth-first. With the
  edges R1 to D1, R1 to D2 and D1 to B1, the edge D1 to B1, accepted at depth 1, comes
  before the edge R1 to D2, accepted at depth 0.
\<close>

theorem edges_in_depth_first_order:
  "resEdges (propagate
      [activeEdge REGULATION ''R1'' DEPARTMENT ''D1'' 1.0 Direct,
       activeEdge REGULATION ''R1'' DEPARTMENT ''D2'' 1.0 Direct,
       activeEdge DEPARTMENT ''D1'' BUDGET ''B1'' 1.0 Direct]
      (newEngine noNames ''T1'' None None None) (sourceConfig REGULATION ''R1'' (Some 1.0)))
   = [\<lparr>pSourceType = REGULATION, pSourceId = ''R1'', pTargetType = DEPARTMENT, pTargetId = ''D1'',
        pWeight = 1.0, pImpactType = Direct\<rparr>,
      \<lparr>pSourceType = DEPARTMENT, pSourceId = ''D1'', pTargetType = BUDGET, pTargetId = ''B1'',
        pWeight = 1.0, pImpactType = Direct\<rparr>,
      \<lparr>pSourceType = REGULATION, pSourceId = ''R1'', pTargetType = DEPARTMENT, pTargetId = ''D2'',
        pWeight = 1.0, pImpactType = Direct\<rparr>]"
  by (simp add: scenario_defs)

section \<open>Risk aggregation\<close>

subsection \<open>The node map of a result has distinct keys\<close>

lemma nodes_acceptEdge_update:
  "\<exists>v. nodes (acceptEdge E ct ci d e imp s)
     = AList.update (nodeKey (targetType e) (targetId e)) v (nodes s)"
  by (cases "map_of (nodes s) (nodeKey (targetType e) (targetId e))")
    (auto simp: acceptEdge_def Let_def)

lemma distinct_nodes_propagateBFS:
  assumes "distinct (map fst (nodes st))"
  shows "distinct (map fst (nodes (propagateBFS E ct ci imp d st)))"
proof (rule propagateBFS_invariant [where P = "\<lambda>s. distinct (map fst (nodes s))"])
  show "distinct (map fst (nodes st))" by (rule assms)
next
  fix s :: Traversal and k
  assume "distinct (map fst (nodes s))"
  then show "distinct (map fst (nodes (s\<lparr>visited := insert k (visited s)\<rparr>)))" by simp
next
  fix s :: Traversal and ct ci d and e :: ImpactEdge and imp
  let ?s1 = "s\<lparr>visited := insert (visitedKeyOf (nodeKey ct ci)
      (nodeKey (targetType e) (targetId e))) (visited s)\<rparr>"
  assume "distinct (map fst (nodes s))"
  then have "distinct (map fst (nodes ?s1))" by simp
  moreover obtain v where "nodes (acceptEdge E ct ci d e imp ?s1)
      = AList.update (nodeKey (targetType e) (targetId e)) v (nodes ?s1)"
    using nodes_acceptEdge_update by blast
  ultimately show "distinct (map fst (nodes (acceptEdge E ct ci d e imp ?s1)))"
    by (simp add: distinct_update)
qed

lemma distinct_resNodes: "distinct (map fst (resNodes (propagate store E0 config)))"
  unfolding propagate_def Let_def
  by (simp add: distinct_nodes_propagateBFS)

subsection \<open>One step of the aggregation\<close>

lemma map_of_addNodeRisk:
  "map_of (addNodeRisk r kn er) k =
     (if k = fst kn
      then Some \<lparr>totalRisk = riskTotal er (fst kn)
                    + impactScore (snd kn) * getSeverityMultiplier (severity r),
                 factors = AList.update (regId r) (impactScore (snd kn)) (riskFactorsOf er (fst kn))\<rparr>
      else map_of er k)"
  by (cases "map_of er (fst kn)")
    (simp_all add: addNodeRisk_def Let_def update_conv' riskTotal_def riskFactorsOf_def)

lemma keys_addNodeRisk: "fst ` set (addNodeRisk r kn er) = insert (fst kn) (fst ` set er)"
  by (cases "map_of er (fst kn)")
    (auto simp: addNodeRisk_def Let_def dom_update update_conv')

lemma distinct_addNodeRisk:
  "distinct (map fst er) \<Longrightarrow> distinct (map fst (addNodeRisk r kn er))"
  by (cases "map_of er (fst kn)")
    (simp_all add: addNodeRisk_def Let_def distinct_update update_conv')

lemma riskTotal_addNodeRisk:
  "riskTotal (addNodeRisk r kn er) k =
     riskTotal er k + (if k = fst kn then impactScore (snd kn) * getSeverityMultiplier (severity r) else 0)"
  by (simp add: riskTotal_def map_of_addNodeRisk)

lemma riskFactorsOf_addNodeRisk:
  "map_of (riskFactorsOf (addNodeRisk r kn er) k) rid =
     (if k = fst kn \<and> rid = regId r then Some (impactScore (snd kn))
      else map_of (riskFactorsOf er k) rid)"
  by (simp add: riskFactorsOf_def map_of_addNodeRisk update_conv')

subsection \<open>The loop over the nodes of one regulation\<close>

lemma keys_fold_addNodeRisk:
  "fst ` set (fold (addNodeRisk r) ns er) = fst ` set er \<union> fst ` set ns"
  by (induction ns arbitrary: er) (auto simp: keys_addNodeRisk)

lemma distinct_fold_addNodeRisk:
  "distinct (map fst er) \<Longrightarrow> distinct (map fst (fold (addNodeRisk r) ns er))"
  by (induction ns arbitrary: er) (simp_all add: distinct_addNodeRisk)

lemma riskTotal_fold_addNodeRisk:
  "distinct (map fst ns) \<Longrightarrow>
   riskTotal (fold (addNodeRisk r) ns er) k =
     riskTotal er k + (case map_of ns k of None \<Rightarrow> 0
                       | Some n \<Rightarrow> impactScore n * getSeverityMultiplier (severity r))"
proof (induction ns arbitrary: er)
  case Nil
  then show ?case by simp
next
  case (Cons kn ns)
  have notin: "k = fst kn \<Longrightarrow> map_of ns k = None"
    using Cons.prems by (auto simp: map_of_eq_None_iff)
  have "riskTotal (fold (addNodeRisk r) (kn # ns) er) k
      = riskTotal (addNodeRisk r kn er) k
        + (case map_of ns k of None \<Rightarrow> 0 | Some n \<Rightarrow> impactScore n * getSeverityMultiplier (severity r))"
    using Cons.IH [of "addNodeRisk r kn er"] Cons.prems by simp
  then show ?case
    using notin by (cases kn) (auto simp: riskTotal_addNodeRisk)
qed

lemma riskFactorsOf_fold_addNodeRisk:
  "distinct (map fst ns) \<Longrightarrow>
   map_of (riskFactorsOf (fold (addNodeRisk r) ns er) k) rid =
     (if rid = regId r \<and> k \<in> fst ` set ns then map_option impactScore (map_of ns k)
      else map_of (riskFactorsOf er k) rid)"
proof (induction ns arbitrary: er)
  case Nil
  then show ?case by simp
next
  case (Cons kn ns)
  have notin: "k = fst kn \<Longrightarrow> k \<notin> fst ` set ns"
    using Cons.prems by auto
  have "map_of (riskFactorsOf (fold (addNodeRisk r) (kn # ns) er) k) rid
      = (if rid = regId r \<and> k \<in> fst ` set ns then map_option impactScore (map_of ns k)
         else map_of (riskFactorsOf (addNodeRisk r kn er) k) rid)"
    using Cons.IH [of "addNodeRisk r kn er"] Cons.prems by simp
  then show ?case
    using notin by (cases kn) (auto simp: riskFactorsOf_addNodeRisk)
qed

subsection \<open>The loop over the regulations\<close>

lemma keys_aggregate_fold:
  "fst ` set (fold (\<lambda>regulation entityRisks.
        fold (addNodeRisk regulation) (resNodes (regulationResult S t regulation)) entityRisks) rs er)
     = fst ` set er \<union> (\<Union>r \<in> set rs. fst ` set (resNodes (regulationResult S t r)))"
  by (induction rs arbitrary: er) (auto simp: keys_fold_addNodeRisk)

lemma distinct_aggregate_fold:
  "distinct (map fst er) \<Longrightarrow>
   distinct (map fst (fold (\<lambda>regulation entityRisks.
        fold (addNodeRisk regulation) (resNodes (regulationResult S t regulation)) entityRisks) rs er))"
  by (induction rs arbitrary: er) (simp_all add: distinct_fold_addNodeRisk)

lemma distinct_regulationResult: "distinct (map fst (resNodes (regulationResult S t r)))"
  by (simp add: regulationResult_def distinct_resNodes)

lemma riskTotal_aggregate_fold:
  "riskTotal (fold (\<lambda>regulation entityRisks.
        fold (addNodeRisk regulation) (resNodes (regulationResult S t regulation)) entityRisks) rs er) k
     = riskTotal er k + (\<Sum>r\<leftarrow>rs. riskContribution S t k r)"
proof (induction rs arbitrary: er)
  case Nil
  then show ?case by simp
next
  case (Cons r rs)
  show ?case
    by (simp add: Cons.IH riskTotal_fold_addNodeRisk [OF distinct_regulationResult]
        riskContribution_def)
qed

lemma regulationResult_regId:
  "regId r = regId r' \<Longrightarrow> regulationResult S t r = regulationResult S t r'"
  by (simp add: regulationResult_def regulationConfig_def)

lemma riskFactorsOf_aggregate_fold:
  "r \<in> set rs \<Longrightarrow> k \<in> fst ` set (resNodes (regulationResult S t r)) \<Longrightarrow>
   map_of (riskFactorsOf (fold (\<lambda>regulation entityRisks.
        fold (addNodeRisk regulation) (resNodes (regulationResult S t regulation)) entityRisks) rs er) k)
      (regId r)
     = map_option impactScore (map_of (resNodes (regulationResult S t r)) k)"
proof (induction rs arbitrary: er rule: rev_induct)
  case Nil
  then show ?case by simp
next
  case (snoc r' rs)
  let ?er = "fold (\<lambda>regulation entityRisks.
        fold (addNodeRisk regulation) (resNodes (regulationResult S t regulation)) entityRisks) rs er"
  have step: "map_of (riskFactorsOf (fold (addNodeRisk r') (resNodes (regulationResult S t r')) ?er) k) (regId r)
      = (if regId r = regId r' \<and> k \<in> fst ` set (resNodes (regulationResult S t r'))
         then map_option impactScore (map_of (resNodes (regulationResult S t r')) k)
         else map_of (riskFactorsOf ?er k) (regId r))"
    by (rule riskFactorsOf_fold_addNodeRisk [OF distinct_regulationResult])
  show ?case
  proof (cases "regId r = regId r'")
    case True
    then have "regulationResult S t r = regulationResult S t r'"
      by (rule regulationResult_regId)
    then show ?thesis
      using step snoc.prems(2) True by simp
  next
    case False
    then have "r \<in> set rs" using snoc.prems(1) by auto
    then show ?thesis
      using step False snoc.IH [OF _ snoc.prems(2)] by simp
  qed
qed

subsection \<open>The emitted results\<close>

lemma splitColon_nonempty: "splitColon s \<noteq> []"
  by (induction s) (auto split: list.splits)

lemma hd_splitColon: "hd (splitColon s) = takeWhile (\<lambda>c. c \<noteq> CHR '':'') s"
  by (induction s) (auto split: list.splits simp: splitColon_nonempty)

lemma splitColon_prefix:
  "CHR '':'' \<notin> set a \<Longrightarrow> splitColon (a @ CHR '':'' # b) = a # splitColon b"
  by (induction a) (auto split: list.splits)

lemma toRiskResult_regulation:
  "entityType (toRiskResult n (nodeKey REGULATION rid, d)) = ''REGULATION''
   \<and> entityId (toRiskResult n (nodeKey REGULATION rid, d)) = Some (takeWhile (\<lambda>c. c \<noteq> CHR '':'') rid)
   \<and> riskFactors (toRiskResult n (nodeKey REGULATION rid, d)) = factors d"
proof -
  have "splitColon (nodeKey REGULATION rid) = ''REGULATION'' # splitColon rid"
    using splitColon_prefix [of "''REGULATION''" rid] by (simp add: nodeKey_def)
  moreover obtain p ps where "splitColon rid = p # ps"
    using splitColon_nonempty [of rid] by (cases "splitColon rid") auto
  moreover from this have "p = takeWhile (\<lambda>c. c \<noteq> CHR '':'') rid"
    using hd_splitColon [of rid] by simp
  ultimately show ?thesis
    by (simp add: toRiskResult_def Let_def)
qed

lemma set_calculateAllRisks:
  "set (calculateAllRisks S t)
     = toRiskResult (length (activeRegulations S t))
         ` set (aggregateRisks S t (activeRegulations S t))"
  by (simp add: calculateAllRisks_def Let_def)

lemma riskTotal_Nil: "riskTotal [] k = 0"
  by (simp add: riskTotal_def)

lemma riskTotal_aggregateRisks:
  "riskTotal (aggregateRisks S t rs) k = (\<Sum>r\<leftarrow>rs. riskContribution S t k r)"
  by (simp add: aggregateRisks_def riskTotal_aggregate_fold riskTotal_Nil)

lemma distinct_aggregateRisks: "distinct (map fst (aggregateRisks S t rs))"
  by (simp add: aggregateRisks_def distinct_aggregate_fold)

lemma keys_aggregateRisks:
  "fst ` set (aggregateRisks S t rs) = (\<Union>r \<in> set rs. fst ` set (resNodes (regulationResult S t r)))"
  by (simp add: aggregateRisks_def keys_aggregate_fold)

lemmas risk_scenario_defs = calculateAllRisks_def activeRegulations_def aggregateRisks_def
  regulationResult_def regulationEngine_def regulationConfig_def addNodeRisk_def toRiskResult_def getSeverityMultiplier_def getRiskLevel_def
  activeRegulation_def

text \<open>
  The aggregation rule. Each node of the aggregation map has as its total risk the sum,
  over the active regulations of the tenant, of the score of that node in the regulation's
  propagation times the severity multiplier; the aggregated nodes are the nodes of those
  propagations, each once; the result list holds one entry per aggregated node, with
  \<open>baseRiskScore = totalRisk / regulationsCount\<close>, \<open>adjustedRiskScore = totalRisk\<close> and
  \<open>riskLevel = getRiskLevel baseRiskScore\<close>, in descending order of \<open>adjustedRiskScore\<close>.
\<close>

lemma calculateAllRisks_aggregation_rule:
  "(\<forall>kd \<in> set (aggregateRisks S t (activeRegulations S t)).
       totalRisk (snd kd) = (\<Sum>r\<leftarrow>activeRegulations S t. riskContribution S t (fst kd) r)
     \<and> toRiskResult (length (activeRegulations S t)) kd \<in> set (calculateAllRisks S t)
     \<and> baseRiskScore (toRiskResult (length (activeRegulations S t)) kd)
         = totalRisk (snd kd) / real (length (activeRegulations S t))
     \<and> adjustedRiskScore (toRiskResult (length (activeRegulations S t)) kd) = totalRisk (snd kd)
     \<and> riskLevel (toRiskResult (length (activeRegulations S t)) kd)
         = getRiskLevel (baseRiskScore (toRiskResult (length (activeRegulations S t)) kd)))
   \<and> fst ` set (aggregateRisks S t (activeRegulations S t))
       = (\<Union>r \<in> set (activeRegulations S t). fst ` set (resNodes (regulationResult S t r)))
   \<and> distinct (map fst (aggregateRisks S t (activeRegulations S t)))
   \<and> set (calculateAllRisks S t)
       = toRiskResult (length (activeRegulations S t)) ` set (aggregateRisks S t (activeRegulations S t))
   \<and> length (calculateAllRisks S t) = length (aggregateRisks S t (activeRegulations S t))
   \<and> sorted_wrt (\<lambda>a b. adjustedRiskScore a \<ge> adjustedRiskScore b) (calculateAllRisks S t)"
proof -
  let ?rs = "activeRegulations S t"
  let ?agg = "aggregateRisks S t ?rs"
  let ?n = "length ?rs"
  have total: "totalRisk (snd kd) = (\<Sum>r\<leftarrow>?rs. riskContribution S t (fst kd) r)"
    if "kd \<in> set ?agg" for kd
  proof -
    from that have "(fst kd, snd kd) \<in> set ?agg" by simp
    then have "map_of ?agg (fst kd) = Some (snd kd)"
      by (rule map_of_is_SomeI [OF distinct_aggregateRisks])
    then have "riskTotal ?agg (fst kd) = totalRisk (snd kd)"
      by (simp add: riskTotal_def)
    then show ?thesis
      by (simp add: riskTotal_aggregateRisks)
  qed
  have fields: "baseRiskScore (toRiskResult ?n kd) = totalRisk (snd kd) / real ?n
     \<and> adjustedRiskScore (toRiskResult ?n kd) = totalRisk (snd kd)
     \<and> riskLevel (toRiskResult ?n kd) = getRiskLevel (baseRiskScore (toRiskResult ?n kd))" for kd
    by (simp add: toRiskResult_def Let_def)
  have part1: "\<forall>kd \<in> set ?agg.
       totalRisk (snd kd) = (\<Sum>r\<leftarrow>?rs. riskContribution S t (fst kd) r)
     \<and> toRiskResult ?n kd \<in> set (calculateAllRisks S t)
     \<and> baseRiskScore (toRiskResult ?n kd) = totalRisk (snd kd) / real ?n
     \<and> adjustedRiskScore (toRiskResult ?n kd) = totalRisk (snd kd)
     \<and> riskLevel (toRiskResult ?n kd) = getRiskLevel (baseRiskScore (toRiskResult ?n kd))"
    using total fields by (simp add: set_calculateAllRisks)
  have len: "length (calculateAllRisks S t) = length ?agg"
    by (simp add: calculateAllRisks_def Let_def)
  have "sorted (map (\<lambda>r. - adjustedRiskScore r) (calculateAllRisks S t))"
    by (simp add: calculateAllRisks_def Let_def)
  then have srt: "sorted_wrt (\<lambda>a b. adjustedRiskScore a \<ge> adjustedRiskScore b) (calculateAllRisks S t)"
    by (simp add: sorted_map)
  show ?thesis
    apply (intro conjI)
    subgoal by (rule part1)
    subgoal by (rule keys_aggregateRisks)
    subgoal by (rule distinct_aggregateRisks)
    subgoal by (rule set_calculateAllRisks)
    subgoal by (rule len)
    subgoal by (rule srt)
    done
qed


text \<open>
  C6. The aggregation rule of the claim is the rule of the code. Its scenario is not what
  the code computes: \<^verbatim>\<open>calculateAllRisks\<close> passes no initial impact to \<^verbatim>\<open>propagate\<close>, so
  every regulation is seeded with the default 1.0, whatever its severity. With R1
  (Critical) and R2 (Medium), each with one Direct edge of weight 1.0 to the department D1,
  the department scores 1.0 under both and gets \<open>totalRisk = 1.0 * 2.0 + 1.0 * 1.0 = 3.0\<close>
  and a base risk of 1.5, where the claim has 2.5 and 1.25. Seeded by severity, as
  \<^verbatim>\<open>getRegulationImpact\<close> and the propagate route seed it, the propagation of R2 gives the
  department 0.5, and the total is the claimed \<open>1.0 * 2.0 + 0.5 * 1.0 = 2.5\<close>.
\<close>

theorem risk_scenario_department_total:
  "calculateAllRisks
      \<lparr>regulations = [activeRegulation ''R1'' ''Critical'', activeRegulation ''R2'' ''Medium''],
       impactEdges = [activeEdge REGULATION ''R1'' DEPARTMENT ''D1'' 1.0 Direct,
                      activeEdge REGULATION ''R2'' DEPARTMENT ''D1'' 1.0 Direct],
       displayNames = noNames\<rparr> ''T1''
   = [\<lparr>entityType = ''DEPARTMENT'', entityId = Some ''D1'', baseRiskScore = 1.5,
        adjustedRiskScore = 3.0, riskLevel = ''Critical'', riskFactors = [(''R1'', 1.0), (''R2'', 1.0)]\<rparr>,
      \<lparr>entityType = ''REGULATION'', entityId = Some ''R1'', baseRiskScore = 1.0,
        adjustedRiskScore = 2.0, riskLevel = ''Critical'', riskFactors = [(''R1'', 1.0)]\<rparr>,
      \<lparr>entityType = ''REGULATION'', entityId = Some ''R2'', baseRiskScore = 0.5,
        adjustedRiskScore = 1.0, riskLevel = ''Medium'', riskFactors = [(''R2'', 1.0)]\<rparr>]
   \<and> (3.0 :: real) \<noteq> 2.5 \<and> (1.5 :: real) \<noteq> 1.25
   \<and> initialImpactOf (regulationConfig (activeRegulation ''R2'' ''Medium'')) = 1.0
   \<and> getInitialImpactFromSeverity (Some ''Medium'') = 0.5
   \<and> getInitialImpactFromSeverity (Some ''Critical'') = 1.0
   \<and> map_option impactScore (map_of (resNodes (propagate
        [activeEdge REGULATION ''R1'' DEPARTMENT ''D1'' 1.0 Direct,
         activeEdge REGULATION ''R2'' DEPARTMENT ''D1'' 1.0 Direct]
        (newEngine noNames ''T1'' None None None)
        (sourceConfig REGULATION ''R2'' (Some (getInitialImpactFromSeverity (Some ''Medium''))))))
      ''DEPARTMENT:D1'') = Some 0.5
   \<and> map_option impactScore (map_of (resNodes (propagate
        [activeEdge REGULATION ''R1'' DEPARTMENT ''D1'' 1.0 Direct,
         activeEdge REGULATION ''R2'' DEPARTMENT ''D1'' 1.0 Direct]
        (newEngine noNames ''T1'' None None None)
        (sourceConfig REGULATION ''R1'' (Some (getInitialImpactFromSeverity (Some ''Critical''))))))
      ''DEPARTMENT:D1'') = Some 1.0
   \<and> (1.0 :: real) * getSeverityMultiplier (Some ''Critical'')
       + 0.5 * getSeverityMultiplier (Some ''Medium'') = 2.5"
  by (simp add: risk_scenario_defs scenario_defs getInitialImpactFromSeverity_def)

subsection \<open>Regulations are scored entities\<close>

text \<open>
  C10, as stated, fails where an accepted edge carries more than the seed back into the
  regulation: with R1 to D1 and D1 back to R1 (weight 1.0, Direct) the factor recorded for
  R1 under its own id is the final score of its source node, 1.2, not the seed impact 1.0
  its propagation was given.
\<close>

theorem regulation_factor_raised_by_cycle:
  "calculateAllRisks
      \<lparr>regulations = [activeRegulation ''R1'' ''Critical''],
       impactEdges = [activeEdge REGULATION ''R1'' DEPARTMENT ''D1'' 1.0 Direct,
                      activeEdge DEPARTMENT ''D1'' REGULATION ''R1'' 1.0 Direct],
       displayNames = noNames\<rparr> ''T1''
   = [\<lparr>entityType = ''REGULATION'', entityId = Some ''R1'', baseRiskScore = 2.4,
        adjustedRiskScore = 2.4, riskLevel = ''Critical'', riskFactors = [(''R1'', 1.2)]\<rparr>,
      \<lparr>entityType = ''DEPARTMENT'', entityId = Some ''D1'', baseRiskScore = 2.0,
        adjustedRiskScore = 2.0, riskLevel = ''Critical'', riskFactors = [(''R1'', 1.0)]\<rparr>]
   \<and> initialImpactOf (regulationConfig (activeRegulation ''R1'' ''Critical'')) = 1.0
   \<and> (1.2 :: real) \<noteq> 1.0"
  by (simp add: risk_scenario_defs scenario_defs)

text \<open>
  C10, amended. \<^verbatim>\<open>calculateAllRisks\<close> scores the source regulations themselves: for every
  active regulation of the tenant the aggregation map has the key \<^verbatim>\<open>REGULATION:<id>\<close>, and
  the results hold an entry of entity type \<^verbatim>\<open>REGULATION\<close> whose entity id is the regulation
  id (up to its first colon, as \<^verbatim>\<open>split(":")\<close> cuts it) and whose risk factors record, under
  the regulation's own id, the final score of the source node of its propagation: the
  largest of the seed impact passed to that propagation and the impacts carried by the
  accepted edges that lead back into the regulation. It is at least the seed passed, and
  the seed itself unless such an edge carried more.
\<close>

theorem active_regulations_are_scored:
  "\<forall>r \<in> set (activeRegulations S t).
     nodeKey REGULATION (regId r) \<in> fst ` set (aggregateRisks S t (activeRegulations S t))
     \<and> (\<exists>res \<in> set (calculateAllRisks S t).
           entityType res = ''REGULATION''
         \<and> entityId res = Some (takeWhile (\<lambda>c. c \<noteq> CHR '':'') (regId r))
         \<and> (\<exists>x. map_of (riskFactors res) (regId r) = Some x
                \<and> map_option impactScore (map_of (resNodes (regulationResult S t r))
                      (nodeKey REGULATION (regId r))) = Some x
                \<and> x = Max (set (initialImpactOf (regulationConfig r)
                      # carriedInto (nodeKey REGULATION (regId r))
                          (resEdges (regulationResult S t r))
                          (carriedImpacts (impactEdges S) (regulationEngine S t) (regulationConfig r))))
                \<and> x \<ge> initialImpactOf (regulationConfig r)
                \<and> ((\<forall>q \<in> set (carriedInto (nodeKey REGULATION (regId r))
                          (resEdges (regulationResult S t r))
                          (carriedImpacts (impactEdges S) (regulationEngine S t) (regulationConfig r))).
                       q \<le> initialImpactOf (regulationConfig r))
                     \<longrightarrow> x = initialImpactOf (regulationConfig r))))"
proof
  fix r assume r: "r \<in> set (activeRegulations S t)"
  let ?rs = "activeRegulations S t"
  let ?agg = "aggregateRisks S t ?rs"
  let ?K = "nodeKey REGULATION (regId r)"
  let ?cfg = "regulationConfig r"
  let ?seed = "initialImpactOf ?cfg"
  let ?into = "carriedInto ?K (resEdges (regulationResult S t r))
      (carriedImpacts (impactEdges S) (regulationEngine S t) ?cfg)"
  have cfg: "cfgSourceType ?cfg = REGULATION" "cfgSourceId ?cfg = regId r"
    by (simp_all add: regulationConfig_def)
  from propagate_source_score [of "impactEdges S" "regulationEngine S t" ?cfg]
  obtain n where n: "map_of (resNodes (regulationResult S t r)) ?K = Some n"
    "impactScore n = Max (set (?seed # ?into))"
    unfolding regulationResult_def cfg by blast
  have ge: "impactScore n \<ge> ?seed"
    unfolding n(2) by simp
  have eq: "impactScore n = ?seed" if "\<forall>q \<in> set ?into. q \<le> ?seed"
  proof -
    have "impactScore n \<le> ?seed"
      unfolding n(2) using that by (subst Max_le_iff) auto
    with ge show ?thesis by linarith
  qed
  from n(1) have Kin: "?K \<in> fst ` set (resNodes (regulationResult S t r))"
    by (metis map_of_eq_None_iff option.distinct(1))
  then have Kagg: "?K \<in> fst ` set ?agg"
    using r by (auto simp: keys_aggregateRisks)
  then obtain d where d: "(?K, d) \<in> set ?agg"
    by auto
  then have "map_of ?agg ?K = Some d"
    by (rule map_of_is_SomeI [OF distinct_aggregateRisks])
  then have "riskFactorsOf ?agg ?K = factors d"
    by (simp add: riskFactorsOf_def)
  moreover have "map_of (riskFactorsOf ?agg ?K) (regId r)
      = map_option impactScore (map_of (resNodes (regulationResult S t r)) ?K)"
    unfolding aggregateRisks_def using r Kin by (rule riskFactorsOf_aggregate_fold)
  ultimately have fac: "map_of (factors d) (regId r) = Some (impactScore n)"
    using n(1) by simp
  let ?res = "toRiskResult (length ?rs) (?K, d)"
  have mem: "?res \<in> set (calculateAllRisks S t)"
    using d by (auto simp: set_calculateAllRisks)
  have fields: "entityType ?res = ''REGULATION''"
    "entityId ?res = Some (takeWhile (\<lambda>c. c \<noteq> CHR '':'') (regId r))"
    "riskFactors ?res = factors d"
    using toRiskResult_regulation [of "length ?rs" "regId r" d] by simp_all
  have inner: "\<exists>x. map_of (riskFactors ?res) (regId r) = Some x
                \<and> map_option impactScore (map_of (resNodes (regulationResult S t r)) ?K) = Some x
                \<and> x = Max (set (?seed # ?into))
                \<and> x \<ge> ?seed
                \<and> ((\<forall>q \<in> set ?into. q \<le> ?seed) \<longrightarrow> x = ?seed)"
    using fac n ge eq by (intro exI [of _ "impactScore n"]) (simp add: fields)
  have "\<exists>res \<in> set (calculateAllRisks S t).
           entityType res = ''REGULATION''
         \<and> entityId res = Some (takeWhile (\<lambda>c. c \<noteq> CHR '':'') (regId r))
         \<and> (\<exists>x. map_of (riskFactors res) (regId r) = Some x
                \<and> map_option impactScore (map_of (resNodes (regulationResult S t r)) ?K) = Some x
                \<and> x = Max (set (?seed # ?into))
                \<and> x \<ge> ?seed
                \<and> ((\<forall>q \<in> set ?into. q \<le> ?seed) \<longrightarrow> x = ?seed))"
    using mem fields(1,2) inner by (intro bexI [of _ ?res] conjI)
  with Kagg show "?K \<in> fst ` set ?agg \<and> (\<exists>res \<in> set (calculateAllRisks S t).
           entityType res = ''REGULATION''
         \<and> entityId res = Some (takeWhile (\<lambda>c. c \<noteq> CHR '':'') (regId r))
         \<and> (\<exists>x. map_of (riskFactors res) (regId r) = Some x
                \<and> map_option impactScore (map_of (resNodes (regulationResult S t r)) ?K) = Some x
                \<and> x = Max (set (?seed # ?into))
                \<and> x \<ge> ?seed
                \<and> ((\<forall>q \<in> set ?into. q \<le> ?seed) \<longrightarrow> x = ?seed)))"
    by blast
qed

theorem active_regulations_are_scored_witness:
  "activeRegulation ''R2'' ''Medium'' \<in> set (activeRegulations
      \<lparr>regulations = [activeRegulation ''R1'' ''Critical'', activeRegulation ''R2'' ''Medium''],
       impactEdges = [activeEdge REGULATION ''R1'' DEPARTMENT ''D1'' 1.0 Direct,
                      activeEdge REGULATION ''R2'' DEPARTMENT ''D1'' 1.0 Direct],
       displayNames = noNames\<rparr> ''T1'')
   \<and> ''REGULATION:R2'' \<in> fst ` set (aggregateRisks
      \<lparr>regulations = [activeRegulation ''R1'' ''Critical'', activeRegulation ''R2'' ''Medium''],
       impactEdges = [activeEdge REGULATION ''R1'' DEPARTMENT ''D1'' 1.0 Direct,
                      activeEdge REGULATION ''R2'' DEPARTMENT ''D1'' 1.0 Direct],
       displayNames = noNames\<rparr> ''T1''
      [activeRegulation ''R1'' ''Critical'', activeRegulation ''R2'' ''Medium''])
   \<and> carriedInto ''REGULATION:R2''
        (resEdges (regulationResult
          \<lparr>regulations = [activeRegulation ''R1'' ''Critical'', activeRegulation ''R2'' ''Medium''],
           impactEdges = [activeEdge REGULATION ''R1'' DEPARTMENT ''D1'' 1.0 Direct,
                          activeEdge REGULATION ''R2'' DEPARTMENT ''D1'' 1.0 Direct],
           displayNames = noNames\<rparr> ''T1'' (activeRegulation ''R2'' ''Medium'')))
        (carriedImpacts
          [activeEdge REGULATION ''R1'' DEPARTMENT ''D1'' 1.0 Direct,
           activeEdge REGULATION ''R2'' DEPARTMENT ''D1'' 1.0 Direct]
          (regulationEngine
            \<lparr>regulations = [activeRegulation ''R1'' ''Critical'', activeRegulation ''R2'' ''Medium''],
             impactEdges = [activeEdge REGULATION ''R1'' DEPARTMENT ''D1'' 1.0 Direct,
                            activeEdge REGULATION ''R2'' DEPARTMENT ''D1'' 1.0 Direct],
             displayNames = noNames\<rparr> ''T1'')
          (regulationConfig (activeRegulation ''R2'' ''Medium''))) = []
   \<and> \<lparr>entityType = ''REGULATION'', entityId = Some ''R2'', baseRiskScore = 0.5,
        adjustedRiskScore = 1.0, riskLevel = ''Medium'',
        riskFactors = [(''R2'', initialImpactOf (regulationConfig (activeRegulation ''R2'' ''Medium'')))]\<rparr>
      \<in> set (calculateAllRisks
      \<lparr>regulations = [activeRegulation ''R1'' ''Critical'', activeRegulation ''R2'' ''Medium''],
       impactEdges = [activeEdge REGULATION ''R1'' DEPARTMENT ''D1'' 1.0 Direct,
                      activeEdge REGULATION ''R2'' DEPARTMENT ''D1'' 1.0 Direct],
       displayNames = noNames\<rparr> ''T1'')"
  using active_regulations_are_scored
    [of "\<lparr>regulations = [activeRegulation ''R1'' ''Critical'', activeRegulation ''R2'' ''Medium''],
         impactEdges = [activeEdge REGULATION ''R1'' DEPARTMENT ''D1'' 1.0 Direct,
                        activeEdge REGULATION ''R2'' DEPARTMENT ''D1'' 1.0 Direct],
         displayNames = noNames\<rparr>" "''T1''"]
  by (simp add: risk_scenario_defs scenario_defs carried_defs)

section \<open>Thresholds\<close>

lemma acceptedTargets_append: "acceptedTargets (xs @ ys) = acceptedTargets xs \<union> acceptedTargets ys"
  by (auto simp: acceptedTargets_def)

lemma acceptedTargets_Nil: "acceptedTargets [] = {}"
  by (simp add: acceptedTargets_def)

lemma acceptedTargets_Cons_Some: "acceptedTargets ((k, Some t) # xs) = insert t (acceptedTargets xs)"
  by (auto simp: acceptedTargets_def)

lemma acceptedTargets_Cons_None: "acceptedTargets ((k, None) # xs) = acceptedTargets xs"
  by (auto simp: acceptedTargets_def)

lemma acceptedTargets_concat:
  "acceptedTargets (concat (map f xs)) = (\<Union>x \<in> set xs. acceptedTargets (f x))"
  by (induction xs) (simp_all add: acceptedTargets_Nil acceptedTargets_append)

lemma keys_acceptEdge:
  "fst ` set (nodes (acceptEdge E ct ci d e imp s))
     = insert (nodeKey (targetType e) (targetId e)) (fst ` set (nodes s))"
proof -
  obtain v where "nodes (acceptEdge E ct ci d e imp s)
      = AList.update (nodeKey (targetType e) (targetId e)) v (nodes s)"
    using nodes_acceptEdge_update by blast
  then show ?thesis by (simp add: dom_update)
qed

text \<open>What one outgoing edge adds to the unfolding.\<close>

lemma examined_run:
  assumes "graph E \<noteq> None" "\<not> maxDepth E \<le> d" "\<not> imp < impactThreshold E"
  shows "examined E ct ci imp d =
     concat (map (\<lambda>edge.
             if edgeSkipped E edge then []
             else if propagatedImpactOf imp edge < impactThreshold E
               then [(visitedKeyOf (nodeKey ct ci) (nodeKey (targetType edge) (targetId edge)), None)]
             else (visitedKeyOf (nodeKey ct ci) (nodeKey (targetType edge) (targetId edge)),
                   Some (nodeKey (targetType edge) (targetId edge)))
                  # examined E (targetType edge) (targetId edge) (propagatedImpactOf imp edge) (d + 1))
           (outgoingEdges (the (graph E)) (nodeKey ct ci)))"
  by (subst examined.simps) (simp only: assms if_False)

lemma examined_stop:
  assumes "graph E = None \<or> maxDepth E \<le> d \<or> imp < impactThreshold E"
  shows "examined E ct ci imp d = []"
  using assms by (subst examined.simps) auto

lemma propagateBFS_run:
  assumes "graph E \<noteq> None" "\<not> maxDepth E \<le> d" "\<not> imp < impactThreshold E"
  shows "propagateBFS E ct ci imp d st =
     fold (\<lambda>edge s.
             if edgeSkipped E edge then s
             else if visitedKeyOf (nodeKey ct ci)
                       (nodeKey (targetType edge) (targetId edge)) \<in> visited s then s
             else if propagatedImpactOf imp edge < impactThreshold E
               then s\<lparr>visited := insert (visitedKeyOf (nodeKey ct ci)
                       (nodeKey (targetType edge) (targetId edge))) (visited s)\<rparr>
             else propagateBFS E (targetType edge) (targetId edge)
                    (propagatedImpactOf imp edge) (d + 1)
                    (acceptEdge E ct ci d edge (propagatedImpactOf imp edge)
                       (s\<lparr>visited := insert (visitedKeyOf (nodeKey ct ci)
                          (nodeKey (targetType edge) (targetId edge))) (visited s)\<rparr>)))
           (outgoingEdges (the (graph E)) (nodeKey ct ci)) st"
  by (subst propagateBFS.simps) (simp only: assms if_False)

lemma propagateBFS_stop:
  assumes "graph E = None \<or> maxDepth E \<le> d \<or> imp < impactThreshold E"
  shows "propagateBFS E ct ci imp d st = st"
  using assms by (subst propagateBFS.simps) auto

lemma nodes_subset_examined:
  "fst ` set (nodes (propagateBFS E ct ci imp d st))
     \<subseteq> fst ` set (nodes st) \<union> acceptedTargets (examined E ct ci imp d)"
proof (induction E ct ci imp d st rule: propagateBFS.induct)
  case (1 E ct ci imp d st)
  show ?case
  proof (cases "graph E = None \<or> maxDepth E \<le> d \<or> imp < impactThreshold E")
    case True
    then show ?thesis by (simp add: propagateBFS_stop)
  next
    case False
    then have run: "graph E \<noteq> None" "\<not> maxDepth E \<le> d" "\<not> imp < impactThreshold E"
      by auto
    let ?es = "outgoingEdges (the (graph E)) (nodeKey ct ci)"
    let ?key = "\<lambda>e. visitedKeyOf (nodeKey ct ci) (nodeKey (targetType e) (targetId e))"
    let ?X = "\<lambda>edge.
             if edgeSkipped E edge then []
             else if propagatedImpactOf imp edge < impactThreshold E
               then [(?key edge, None)]
             else (?key edge, Some (nodeKey (targetType edge) (targetId edge)))
                  # examined E (targetType edge) (targetId edge) (propagatedImpactOf imp edge) (d + 1)"
    let ?body = "\<lambda>edge s.
             if edgeSkipped E edge then s
             else if ?key edge \<in> visited s then s
             else if propagatedImpactOf imp edge < impactThreshold E
               then s\<lparr>visited := insert (?key edge) (visited s)\<rparr>
             else propagateBFS E (targetType edge) (targetId edge)
                    (propagatedImpactOf imp edge) (d + 1)
                    (acceptEdge E ct ci d edge (propagatedImpactOf imp edge)
                       (s\<lparr>visited := insert (?key edge) (visited s)\<rparr>))"
    let ?T = "acceptedTargets (examined E ct ci imp d)"
    have ex: "?T = (\<Union>e \<in> set ?es. acceptedTargets (?X e))"
      by (simp only: examined_run [OF run] acceptedTargets_concat)
    have "fst ` set (nodes (fold ?body ?es st)) \<subseteq> fst ` set (nodes st) \<union> ?T"
    proof (rule fold_invariant [where Q = "\<lambda>e. e \<in> set ?es"
          and P = "\<lambda>s. fst ` set (nodes s) \<subseteq> fst ` set (nodes st) \<union> ?T"])
      show "\<And>x. x \<in> set ?es \<Longrightarrow> x \<in> set ?es" .
      show "fst ` set (nodes st) \<subseteq> fst ` set (nodes st) \<union> ?T" by simp
      fix e and s :: Traversal
      assume e: "e \<in> set ?es" and s: "fst ` set (nodes s) \<subseteq> fst ` set (nodes st) \<union> ?T"
      let ?pimp = "propagatedImpactOf imp e"
      consider (skip) "edgeSkipped E e \<or> ?key e \<in> visited s"
        | (low) "\<not> edgeSkipped E e" "?key e \<notin> visited s" "?pimp < impactThreshold E"
        | (go) "\<not> edgeSkipped E e" "?key e \<notin> visited s" "\<not> ?pimp < impactThreshold E"
        by blast
      then show "fst ` set (nodes (?body e s)) \<subseteq> fst ` set (nodes st) \<union> ?T"
      proof cases
        case skip
        then show ?thesis using s by auto
      next
        case low
        then show ?thesis using s by simp
      next
        case go
        let ?s2 = "acceptEdge E ct ci d e ?pimp (s\<lparr>visited := insert (?key e) (visited s)\<rparr>)"
        have Xe: "?X e = (?key e, Some (nodeKey (targetType e) (targetId e)))
            # examined E (targetType e) (targetId e) ?pimp (d + 1)"
          using go by simp
        have sub: "acceptedTargets (?X e) \<subseteq> ?T"
          using e unfolding ex by blast
        have "fst ` set (nodes (propagateBFS E (targetType e) (targetId e) ?pimp (d + 1) ?s2))
            \<subseteq> fst ` set (nodes ?s2) \<union> acceptedTargets (examined E (targetType e) (targetId e) ?pimp (d + 1))"
          by (rule "1.IH" [OF run e go])
        also have "\<dots> = fst ` set (nodes s) \<union> acceptedTargets (?X e)"
          by (simp only: Xe acceptedTargets_Cons_Some keys_acceptEdge) simp
        also have "\<dots> \<subseteq> fst ` set (nodes st) \<union> ?T"
          using s sub by blast
        finally show ?thesis using go by simp
      qed
    qed
    then show ?thesis by (simp only: propagateBFS_run [OF run])
  qed
qed

lemma edgeSkipped_threshold: "edgeSkipped (E\<lparr>impactThreshold := th\<rparr>) e = edgeSkipped E e"
  by (simp add: edgeSkipped_def)

lemma examined_threshold_mono:
  "th \<le> impactThreshold E \<Longrightarrow>
   acceptedTargets (examined E ct ci imp d)
     \<subseteq> acceptedTargets (examined (E\<lparr>impactThreshold := th\<rparr>) ct ci imp d)"
proof (induction E ct ci imp d rule: examined.induct)
  case (1 E ct ci imp d)
  let ?E' = "E\<lparr>impactThreshold := th\<rparr>"
  show ?case
  proof (cases "graph E = None \<or> maxDepth E \<le> d \<or> imp < impactThreshold E")
    case True
    then show ?thesis by (simp add: examined_stop acceptedTargets_Nil)
  next
    case False
    then have run: "graph E \<noteq> None" "\<not> maxDepth E \<le> d" "\<not> imp < impactThreshold E"
      by auto
    have run': "graph ?E' \<noteq> None" "\<not> maxDepth ?E' \<le> d" "\<not> imp < impactThreshold ?E'"
      using run "1.prems" by auto
    let ?es = "outgoingEdges (the (graph E)) (nodeKey ct ci)"
    have es': "outgoingEdges (the (graph ?E')) (nodeKey ct ci) = ?es" by simp
    have "acceptedTargets (examined E ct ci imp d) \<subseteq> acceptedTargets (examined ?E' ct ci imp d)"
      unfolding examined_run [OF run] examined_run [OF run'] acceptedTargets_concat es'
    proof (rule UN_mono [OF subset_refl])
      fix e assume e: "e \<in> set ?es"
      let ?pimp = "propagatedImpactOf imp e"
      let ?key = "visitedKeyOf (nodeKey ct ci) (nodeKey (targetType e) (targetId e))"
      consider (skip) "edgeSkipped E e"
        | (low) "\<not> edgeSkipped E e" "?pimp < impactThreshold E"
        | (go) "\<not> edgeSkipped E e" "\<not> ?pimp < impactThreshold E"
        by blast
      then show "acceptedTargets
           (if edgeSkipped E e then []
            else if ?pimp < impactThreshold E then [(?key, None)]
            else (?key, Some (nodeKey (targetType e) (targetId e)))
                 # examined E (targetType e) (targetId e) ?pimp (d + 1))
          \<subseteq> acceptedTargets
           (if edgeSkipped ?E' e then []
            else if ?pimp < impactThreshold ?E' then [(?key, None)]
            else (?key, Some (nodeKey (targetType e) (targetId e)))
                 # examined ?E' (targetType e) (targetId e) ?pimp (d + 1))"
      proof cases
        case skip
        then show ?thesis by (simp add: acceptedTargets_Nil)
      next
        case low
        then show ?thesis by (simp add: acceptedTargets_Nil acceptedTargets_Cons_None)
      next
        case go
        then have go': "\<not> ?pimp < impactThreshold ?E'"
          using "1.prems" by simp
        have "acceptedTargets (examined E (targetType e) (targetId e) ?pimp (d + 1))
            \<subseteq> acceptedTargets (examined ?E' (targetType e) (targetId e) ?pimp (d + 1))"
          by (rule "1.IH" [OF run e go "1.prems"])
        then show ?thesis
          using go go' by (auto simp: edgeSkipped_threshold acceptedTargets_Cons_Some)
      qed
    qed
    then show ?thesis .
  qed
qed

lemma fold_examined:
  fixes body :: "'e \<Rightarrow> Traversal \<Rightarrow> Traversal" and X :: "'e \<Rightarrow> (string \<times> string option) list"
  assumes step: "\<And>e s. e \<in> set es0 \<Longrightarrow> distinct (map fst (X e)) \<Longrightarrow>
      fst ` set (X e) \<inter> visited s = {} \<Longrightarrow>
      visited (body e s) = visited s \<union> fst ` set (X e)
      \<and> fst ` set (nodes (body e s)) = fst ` set (nodes s) \<union> acceptedTargets (X e)"
  shows "set es \<subseteq> set es0 \<Longrightarrow> distinct (map fst (concat (map X es))) \<Longrightarrow>
      fst ` set (concat (map X es)) \<inter> visited s = {} \<Longrightarrow>
      visited (fold body es s) = visited s \<union> fst ` set (concat (map X es))
      \<and> fst ` set (nodes (fold body es s))
          = fst ` set (nodes s) \<union> acceptedTargets (concat (map X es))"
proof (induction es arbitrary: s)
  case Nil
  then show ?case by (simp add: acceptedTargets_Nil)
next
  case (Cons e es)
  have e: "e \<in> set es0" and es: "set es \<subseteq> set es0"
    using Cons.prems(1) by simp_all
  have dX: "distinct (map fst (X e))" and drest: "distinct (map fst (concat (map X es)))"
    and apart: "fst ` set (X e) \<inter> fst ` set (concat (map X es)) = {}"
    using Cons.prems(2) by (simp_all del: set_concat)
  have disjX: "fst ` set (X e) \<inter> visited s = {}"
    and disjrest: "fst ` set (concat (map X es)) \<inter> visited s = {}"
    using Cons.prems(3) by (auto simp del: set_concat)
  note st = step [OF e dX disjX]
  have "fst ` set (concat (map X es)) \<inter> visited (body e s) = {}"
    using apart disjrest by (simp only: conjunct1 [OF st]) blast
  from Cons.IH [OF es drest this]
  have "visited (fold body es (body e s)) = visited (body e s) \<union> fst ` set (concat (map X es))
    \<and> fst ` set (nodes (fold body es (body e s)))
        = fst ` set (nodes (body e s)) \<union> acceptedTargets (concat (map X es))" .
  then show ?case
    using st by (simp only: fold_simps list.map concat.simps acceptedTargets_append
        set_append image_Un comp_apply) blast
qed

lemma visited_fst_examined_exact:
  "distinct (map fst (examined E ct ci imp d)) \<Longrightarrow>
   fst ` set (examined E ct ci imp d) \<inter> visited st = {} \<Longrightarrow>
   visited (propagateBFS E ct ci imp d st) = visited st \<union> fst ` set (examined E ct ci imp d)
   \<and> fst ` set (nodes (propagateBFS E ct ci imp d st))
       = fst ` set (nodes st) \<union> acceptedTargets (examined E ct ci imp d)"
proof (induction E ct ci imp d st rule: propagateBFS.induct)
  case (1 E ct ci imp d st)
  show ?case
  proof (cases "graph E = None \<or> maxDepth E \<le> d \<or> imp < impactThreshold E")
    case True
    then show ?thesis by (simp add: propagateBFS_stop examined_stop acceptedTargets_Nil)
  next
    case False
    then have run: "graph E \<noteq> None" "\<not> maxDepth E \<le> d" "\<not> imp < impactThreshold E"
      by auto
    let ?es = "outgoingEdges (the (graph E)) (nodeKey ct ci)"
    let ?key = "\<lambda>e. visitedKeyOf (nodeKey ct ci) (nodeKey (targetType e) (targetId e))"
    let ?X = "\<lambda>edge.
             if edgeSkipped E edge then []
             else if propagatedImpactOf imp edge < impactThreshold E
               then [(?key edge, None)]
             else (?key edge, Some (nodeKey (targetType edge) (targetId edge)))
                  # examined E (targetType edge) (targetId edge) (propagatedImpactOf imp edge) (d + 1)"
    let ?body = "\<lambda>edge s.
             if edgeSkipped E edge then s
             else if ?key edge \<in> visited s then s
             else if propagatedImpactOf imp edge < impactThreshold E
               then s\<lparr>visited := insert (?key edge) (visited s)\<rparr>
             else propagateBFS E (targetType edge) (targetId edge)
                    (propagatedImpactOf imp edge) (d + 1)
                    (acceptEdge E ct ci d edge (propagatedImpactOf imp edge)
                       (s\<lparr>visited := insert (?key edge) (visited s)\<rparr>))"
    have step: "visited (?body e s) = visited s \<union> fst ` set (?X e)
        \<and> fst ` set (nodes (?body e s)) = fst ` set (nodes s) \<union> acceptedTargets (?X e)"
      if e: "e \<in> set ?es" and dist: "distinct (map fst (?X e))"
        and disj: "fst ` set (?X e) \<inter> visited s = {}" for e and s :: Traversal
    proof -
      let ?pimp = "propagatedImpactOf imp e"
      consider (skip) "edgeSkipped E e"
        | (low) "\<not> edgeSkipped E e" "?pimp < impactThreshold E"
        | (go) "\<not> edgeSkipped E e" "\<not> ?pimp < impactThreshold E"
        by blast
      then show ?thesis
      proof cases
        case skip
        then show ?thesis by (simp add: acceptedTargets_Nil)
      next
        case low
        then have "?key e \<notin> visited s" using disj by simp
        then show ?thesis using low by (simp add: acceptedTargets_Nil acceptedTargets_Cons_None)
      next
        case go
        let ?sub = "examined E (targetType e) (targetId e) ?pimp (d + 1)"
        let ?s2 = "acceptEdge E ct ci d e ?pimp (s\<lparr>visited := insert (?key e) (visited s)\<rparr>)"
        have Xe: "?X e = (?key e, Some (nodeKey (targetType e) (targetId e))) # ?sub"
          using go by simp
        have fresh: "?key e \<notin> visited s" using disj Xe by simp
        have d1: "distinct (map fst ?sub)" and d2: "?key e \<notin> fst ` set ?sub"
          using dist Xe by simp_all
        have d3: "fst ` set ?sub \<inter> visited ?s2 = {}"
          using disj d2 Xe by (auto simp: visited_acceptEdge)
        have "visited (propagateBFS E (targetType e) (targetId e) ?pimp (d + 1) ?s2)
              = visited ?s2 \<union> fst ` set ?sub
          \<and> fst ` set (nodes (propagateBFS E (targetType e) (targetId e) ?pimp (d + 1) ?s2))
              = fst ` set (nodes ?s2) \<union> acceptedTargets ?sub"
          by (rule "1.IH" [OF run e go(1) fresh go(2) d1 d3])
        then show ?thesis
          using go fresh
          by (simp only: Xe acceptedTargets_Cons_Some keys_acceptEdge visited_acceptEdge if_False)
            auto
      qed
    qed
    have "visited (fold ?body ?es st) = visited st \<union> fst ` set (concat (map ?X ?es))
        \<and> fst ` set (nodes (fold ?body ?es st))
            = fst ` set (nodes st) \<union> acceptedTargets (concat (map ?X ?es))"
    proof (rule fold_examined [where ?es0.0 = ?es and body = ?body and X = ?X])
      show "set ?es \<subseteq> set ?es" by simp
      show "distinct (map fst (concat (map ?X ?es)))"
        using "1.prems"(1) by (simp only: examined_run [OF run])
      show "fst ` set (concat (map ?X ?es)) \<inter> visited st = {}"
        using "1.prems"(2) by (simp only: examined_run [OF run])
    qed (rule step)
    then show ?thesis
      by (simp only: propagateBFS_run [OF run] examined_run [OF run])
  qed
qed

lemma ensureGraph_threshold:
  "ensureGraph store (E\<lparr>impactThreshold := th\<rparr>) = (ensureGraph store E)\<lparr>impactThreshold := th\<rparr>"
  by (simp add: ensureGraph_def initialize_def)

text \<open>
  C2, as stated, fails where two paths lead to one node. With the edges S to A (0.25),
  S to X (1.0), A to X (1.0) and X to Y (0.5), all Direct between departments, the run at
  threshold 0.25 first reaches X through A with impact 0.25, marks the edge X to Y as
  visited and drops it (0.125 is below the threshold); when X is reached again from S with
  impact 1.0 the edge is skipped as visited, and Y is never added. At threshold 0.5 the edge
  S to A is dropped, X is reached from S only, and Y is added with impact 0.5.
\<close>

theorem threshold_not_monotone:
  "map fst (resNodes (propagate
      [activeEdge DEPARTMENT ''S'' DEPARTMENT ''A'' 0.25 Direct,
       activeEdge DEPARTMENT ''S'' DEPARTMENT ''X'' 1.0 Direct,
       activeEdge DEPARTMENT ''A'' DEPARTMENT ''X'' 1.0 Direct,
       activeEdge DEPARTMENT ''X'' DEPARTMENT ''Y'' 0.5 Direct]
      (newEngine noNames ''T1'' (Some 10) (Some 0.25) (Some True))
      (sourceConfig DEPARTMENT ''S'' (Some 1.0))))
     = [''DEPARTMENT:S'', ''DEPARTMENT:A'', ''DEPARTMENT:X'']
   \<and> map fst (resNodes (propagate
      [activeEdge DEPARTMENT ''S'' DEPARTMENT ''A'' 0.25 Direct,
       activeEdge DEPARTMENT ''S'' DEPARTMENT ''X'' 1.0 Direct,
       activeEdge DEPARTMENT ''A'' DEPARTMENT ''X'' 1.0 Direct,
       activeEdge DEPARTMENT ''X'' DEPARTMENT ''Y'' 0.5 Direct]
      (newEngine noNames ''T1'' (Some 10) (Some 0.5) (Some True))
      (sourceConfig DEPARTMENT ''S'' (Some 1.0))))
     = [''DEPARTMENT:S'', ''DEPARTMENT:X'', ''DEPARTMENT:Y'']
   \<and> (0.25 :: real) < 0.5
   \<and> \<not> set (map fst (resNodes (propagate
      [activeEdge DEPARTMENT ''S'' DEPARTMENT ''A'' 0.25 Direct,
       activeEdge DEPARTMENT ''S'' DEPARTMENT ''X'' 1.0 Direct,
       activeEdge DEPARTMENT ''A'' DEPARTMENT ''X'' 1.0 Direct,
       activeEdge DEPARTMENT ''X'' DEPARTMENT ''Y'' 0.5 Direct]
      (newEngine noNames ''T1'' (Some 10) (Some 0.5) (Some True))
      (sourceConfig DEPARTMENT ''S'' (Some 1.0)))))
     \<subseteq> set (map fst (resNodes (propagate
      [activeEdge DEPARTMENT ''S'' DEPARTMENT ''A'' 0.25 Direct,
       activeEdge DEPARTMENT ''S'' DEPARTMENT ''X'' 1.0 Direct,
       activeEdge DEPARTMENT ''A'' DEPARTMENT ''X'' 1.0 Direct,
       activeEdge DEPARTMENT ''X'' DEPARTMENT ''Y'' 0.5 Direct]
      (newEngine noNames ''T1'' (Some 10) (Some 0.25) (Some True))
      (sourceConfig DEPARTMENT ''S'' (Some 1.0)))))"
  by (simp add: scenario_defs)

text \<open>
  C2, amended. Monotone threshold where no edge key comes up twice: for every store, every
  engine, every source and initial impact and every pair of thresholds
  \<open>\<theta>\<^sub>1 \<le> \<theta>\<^sub>2\<close> with the options otherwise equal, if the unfolding of the graph from the
  source at threshold \<open>\<theta>\<^sub>1\<close> examines no edge key twice (as on a tree), then the set of
  node keys of the result at \<open>\<theta>\<^sub>1\<close> contains the set of node keys of the result at
  \<open>\<theta>\<^sub>2\<close>.
\<close>

theorem threshold_monotone_without_revisits:
  assumes "th1 \<le> th2"
    and "distinct (map fst (examined (ensureGraph store (E\<lparr>impactThreshold := th1\<rparr>))
           (cfgSourceType config) (cfgSourceId config) (initialImpactOf config) 0))"
  shows "set (map fst (resNodes (propagate store (E\<lparr>impactThreshold := th2\<rparr>) config)))
       \<subseteq> set (map fst (resNodes (propagate store (E\<lparr>impactThreshold := th1\<rparr>) config)))"
proof -
  let ?E1 = "ensureGraph store (E\<lparr>impactThreshold := th1\<rparr>)"
  let ?E2 = "ensureGraph store (E\<lparr>impactThreshold := th2\<rparr>)"
  let ?ct = "cfgSourceType config" and ?ci = "cfgSourceId config"
  let ?x = "initialImpactOf config"
  let ?start = "\<lambda>E'. \<lparr>visited = {},
      nodes = AList.update (nodeKey ?ct ?ci) (sourceNode E' ?ct ?ci ?x) [], edges = []\<rparr>"
  have E12: "?E1 = ?E2\<lparr>impactThreshold := th1\<rparr>"
    by (simp add: ensureGraph_threshold)
  have th: "th1 \<le> impactThreshold ?E2"
    using assms(1) by (simp add: ensureGraph_threshold)
  have "fst ` set (nodes (propagateBFS ?E2 ?ct ?ci ?x 0 (?start ?E2)))
      \<subseteq> fst ` set (nodes (?start ?E2)) \<union> acceptedTargets (examined ?E2 ?ct ?ci ?x 0)"
    by (rule nodes_subset_examined)
  also have "\<dots> \<subseteq> fst ` set (nodes (?start ?E1)) \<union> acceptedTargets (examined ?E1 ?ct ?ci ?x 0)"
    using examined_threshold_mono [OF th, of ?ct ?ci ?x 0] unfolding E12 [symmetric] by auto
  also have "\<dots> = fst ` set (nodes (propagateBFS ?E1 ?ct ?ci ?x 0 (?start ?E1)))"
    using visited_fst_examined_exact [OF assms(2), of "?start ?E1"] by simp
  finally show ?thesis
    by (simp only: propagate_results(1) set_map)
qed

theorem threshold_monotone_without_revisits_witness:
  "(0.01 :: real) \<le> 0.4
   \<and> distinct (map fst (examined (ensureGraph
        [activeEdge REGULATION ''R1'' DEPARTMENT ''D1'' 0.5 Direct,
         activeEdge DEPARTMENT ''D1'' BUDGET ''B1'' 0.8 Direct]
        ((newEngine noNames ''T1'' None None None)\<lparr>impactThreshold := 0.01\<rparr>))
        REGULATION ''R1'' 1.0 0))
   \<and> set (map fst (resNodes (propagate
        [activeEdge REGULATION ''R1'' DEPARTMENT ''D1'' 0.5 Direct,
         activeEdge DEPARTMENT ''D1'' BUDGET ''B1'' 0.8 Direct]
        ((newEngine noNames ''T1'' None None None)\<lparr>impactThreshold := 0.4\<rparr>)
        (sourceConfig REGULATION ''R1'' (Some 1.0)))))
     \<subseteq> set (map fst (resNodes (propagate
        [activeEdge REGULATION ''R1'' DEPARTMENT ''D1'' 0.5 Direct,
         activeEdge DEPARTMENT ''D1'' BUDGET ''B1'' 0.8 Direct]
        ((newEngine noNames ''T1'' None None None)\<lparr>impactThreshold := 0.01\<rparr>)
        (sourceConfig REGULATION ''R1'' (Some 1.0)))))
   \<and> map fst (resNodes (propagate
        [activeEdge REGULATION ''R1'' DEPARTMENT ''D1'' 0.5 Direct,
         activeEdge DEPARTMENT ''D1'' BUDGET ''B1'' 0.8 Direct]
        ((newEngine noNames ''T1'' None None None)\<lparr>impactThreshold := 0.4\<rparr>)
        (sourceConfig REGULATION ''R1'' (Some 1.0))))
     = [''REGULATION:R1'', ''DEPARTMENT:D1'']"
proof -
  have le: "(0.01 :: real) \<le> 0.4" by simp
  have dist: "distinct (map fst (examined (ensureGraph
        [activeEdge REGULATION ''R1'' DEPARTMENT ''D1'' 0.5 Direct,
         activeEdge DEPARTMENT ''D1'' BUDGET ''B1'' 0.8 Direct]
        ((newEngine noNames ''T1'' None None None)\<lparr>impactThreshold := 0.01\<rparr>))
        (cfgSourceType (sourceConfig REGULATION ''R1'' (Some 1.0)))
        (cfgSourceId (sourceConfig REGULATION ''R1'' (Some 1.0)))
        (initialImpactOf (sourceConfig REGULATION ''R1'' (Some 1.0))) 0))"
    by (simp add: scenario_defs examined.simps)
  show ?thesis
    using le dist threshold_monotone_without_revisits [OF le dist]
    by (simp add: scenario_defs examined.simps)
qed

end
